theory Spec2Isabelle
  imports Complex_Main
begin

section \<open>Numbers: Python floats\<close>

text \<open>
  Every number of the filter is a Python \<^verbatim>\<open>float\<close> (or a numpy \<^verbatim>\<open>float64\<close>), that is an
  IEEE binary64 value, and every arithmetic operation rounds its exact result to the nearest
  binary64 value, ties to even. The model keeps the values as reals and writes the rounding
  out: each operation of the source is the exact operation followed by \<open>fl a\<close>, where the
  parameter \<open>a\<close> selects the arithmetic. \<open>Binary64\<close> is what the interpreter computes;
  \<open>Exact\<close> rounds nothing and is the arithmetic of the mathematics behind the filter.
  Infinities and NaN are not values of the model: a numpy operation that would produce one
  is the error \<open>NotFinite\<close>. An operation whose rounded result has a magnitude of
  \<open>2 ^ 1024\<close> or more overflows: the interpreter computes an infinity there, the model
  keeps the real number, and from then on the two differ. \<open>finite64\<close> below tells the
  results in range.
\<close>

datatype arith = Exact | Binary64

definition round_half_even :: "real \<Rightarrow> int" where
  "round_half_even y =
     (let f = \<lfloor>y\<rfloor> in
      if y - of_int f < 1 / 2 then f
      else if 1 / 2 < y - of_int f then f + 1
      else if even f then f else f + 1)"

text \<open>
  \<open>exponent64 k x\<close> searches the binary exponents \<open>int k - 1022, \<dots>, - 1021\<close> downwards for
  the largest \<open>e\<close> with \<open>2 ^ e \<le> \<bar>x\<bar>\<close> and answers \<open>- 1022\<close>, the exponent of the
  subnormal numbers, when there is none. With \<open>k = 2045\<close> the search starts at \<open>1023\<close>, the
  largest exponent of the format.
\<close>

fun exponent64 :: "nat \<Rightarrow> real \<Rightarrow> int" where
  "exponent64 0 x = - 1022"
| "exponent64 (Suc k) x =
     (if 2 powi (int k - 1021) \<le> \<bar>x\<bar> then int k - 1021 else exponent64 k x)"

text \<open>A binary64 value has 53 significant bits: it is a multiple of \<open>2 ^ (e - 52)\<close>.\<close>

definition binary64 :: "real \<Rightarrow> real" where
  "binary64 x =
     (let q = 2 powi (exponent64 2045 x - 52)
      in q * of_int (round_half_even (x / q)))"

text \<open>
  The rounded results that are binary64 numbers. The largest of them is
  \<open>2 ^ 1024 - 2 ^ 971\<close>; an exact result of \<open>2 ^ 1024 - 2 ^ 970\<close> or more is rounded by
  \<open>binary64\<close> to \<open>2 ^ 1024\<close> or more, and by the interpreter to an infinity.
\<close>

definition finite64 :: "real \<Rightarrow> bool" where
  "finite64 x = (\<bar>x\<bar> < 2 ^ 1024)"

text \<open>
  The relative error of a rounding is at most \<open>unit_roundoff\<close>, except below the smallest
  normal number, where the absolute error is at most \<open>half_subnormal\<close>.
\<close>

definition unit_roundoff :: real where
  "unit_roundoff = 1 / 2 ^ 53"

definition half_subnormal :: real where
  "half_subnormal = 2 powi (- 1075)"

fun fl :: "arith \<Rightarrow> real \<Rightarrow> real" where
  "fl Exact x = x"
| "fl Binary64 x = binary64 x"

definition fadd :: "arith \<Rightarrow> real \<Rightarrow> real \<Rightarrow> real" where
  "fadd a x y = fl a (x + y)"

definition fsub :: "arith \<Rightarrow> real \<Rightarrow> real \<Rightarrow> real" where
  "fsub a x y = fl a (x - y)"

definition fmul :: "arith \<Rightarrow> real \<Rightarrow> real \<Rightarrow> real" where
  "fmul a x y = fl a (x * y)"

text \<open>\<^verbatim>\<open>x ** 2\<close>\<close>

definition fsquare :: "arith \<Rightarrow> real \<Rightarrow> real" where
  "fsquare a x = fl a (x * x)"

datatype error = IndexError | ZeroDivisionError | TypeError | NotFinite

text \<open>
  Division of Python floats raises \<^verbatim>\<open>ZeroDivisionError\<close> on a zero divisor. Division of
  numpy scalars does not raise: it answers an infinity or NaN.
\<close>

definition py_div :: "arith \<Rightarrow> real \<Rightarrow> real \<Rightarrow> error + real" where
  "py_div a x y = (if y = 0 then Inl ZeroDivisionError else Inr (fl a (x / y)))"

definition np_div :: "arith \<Rightarrow> real \<Rightarrow> real \<Rightarrow> error + real" where
  "np_div a x y = (if y = 0 then Inl NotFinite else Inr (fl a (x / y)))"

text \<open>Sequencing of computations that may raise.\<close>

definition bind :: "error + 'a \<Rightarrow> ('a \<Rightarrow> error + 'b) \<Rightarrow> error + 'b" where
  "bind m f = (case m of Inl e \<Rightarrow> Inl e | Inr x \<Rightarrow> f x)"

text \<open>
  \<^verbatim>\<open>np.mod(x, m)\<close> on floats: the C remainder \<^verbatim>\<open>fmod\<close>, which is exact and has the sign of
  \<open>x\<close>, moved by one (rounded) addition of \<open>m\<close> when its sign differs from the sign of
  \<open>m\<close>. A zero modulus gives NaN.
\<close>

definition round_toward_zero :: "real \<Rightarrow> int" where
  "round_toward_zero x = (if 0 \<le> x then \<lfloor>x\<rfloor> else \<lceil>x\<rceil>)"

definition fmod :: "real \<Rightarrow> real \<Rightarrow> real" where
  "fmod x m = x - m * of_int (round_toward_zero (x / m))"

definition np_mod :: "arith \<Rightarrow> real \<Rightarrow> real \<Rightarrow> error + real" where
  "np_mod a x m =
     (if m = 0 then Inl NotFinite
      else let r = fmod x m
           in Inr (if r \<noteq> 0 \<and> ((m < 0) \<noteq> (r < 0)) then fl a (r + m) else r))"

text \<open>\<^verbatim>\<open>np.arctan2(y, x)\<close>, the angle of the point \<open>(x, y)\<close> in \<open>(-\<pi>, \<pi>]\<close>, \<open>0\<close> at the origin.\<close>

definition arctan2 :: "real \<Rightarrow> real \<Rightarrow> real" where
  "arctan2 y x =
     (if 0 < x then arctan (y / x)
      else if x < 0 then (if 0 \<le> y then arctan (y / x) + pi else arctan (y / x) - pi)
      else if 0 < y then pi / 2
      else if y < 0 then - pi / 2
      else 0)"

section \<open>Data model\<close>

text \<open>A state is \<^verbatim>\<open>[x, y, heading]\<close>, a particle is \<^verbatim>\<open>[weight, state]\<close>.\<close>

type_synonym state = "real \<times> real \<times> real"
type_synonym particle = "real \<times> state"

text \<open>
  The three filter classes differ in \<^verbatim>\<open>needs_resampling\<close> and in the threshold the two
  subclasses store.
\<close>

datatype filter_class =
  ParticleFilterSIR
| ParticleFilterNEPR real
| ParticleFilterMWR real

text \<open>
  The attributes of a filter object. \<open>particles\<close> is \<open>None\<close> when the attribute holds
  Python's \<^verbatim>\<open>None\<close>, which \<^verbatim>\<open>resample\<close> returns for an algorithm name it does not know.
\<close>

record particle_filter =
  filter_class :: filter_class
  n_particles :: int
  x_min :: real
  x_max :: real
  y_min :: real
  y_max :: real
  process_noise :: "real \<times> real"
  measurement_noise :: "real \<times> real"
  resampling_algorithm :: string
  particles :: "particle list option"

text \<open>
  The random source. \<open>multivariate_normal r i mean cov\<close> is the vector that the \<open>i\<close>-th call
  \<^verbatim>\<open>np.random.multivariate_normal(mean, cov, 1)\<close> of an update returns, \<open>cov\<close> being the
  diagonal of the covariance matrix (the source writes zeros elsewhere);
  \<open>uniform r k low high\<close> is the number that the \<open>k\<close>-th call
  \<^verbatim>\<open>np.random.uniform(low, high, 1)\<close> of a resampling returns.
\<close>

record rng =
  multivariate_normal :: "nat \<Rightarrow> state \<Rightarrow> state \<Rightarrow> state"
  uniform :: "nat \<Rightarrow> real \<Rightarrow> real \<Rightarrow> real"

section \<open>particle\_filter\_base.py\<close>

definition particle_initialize_uniform_original_state_known ::
  "arith \<Rightarrow> particle_filter \<Rightarrow> state \<Rightarrow> error + particle_filter" where
  "particle_initialize_uniform_original_state_known a f robot =
     bind (py_div a 1 (of_int (n_particles f)))
       (\<lambda>weight. Inr (f\<lparr>particles := Some (replicate (nat (n_particles f)) (weight, robot))\<rparr>))"

definition validate_state :: "arith \<Rightarrow> particle_filter \<Rightarrow> state \<Rightarrow> error + state" where
  "validate_state a f s =
     (case s of (x, y, h) \<Rightarrow>
        bind (np_mod a x (x_max f)) (\<lambda>x'.
        bind (np_mod a y (y_max f)) (\<lambda>y'.
        bind (np_mod a h (fmul a 2 (fl a pi))) (\<lambda>h'.
        Inr (x', y', h')))))"

fun average_loop :: "arith \<Rightarrow> particle list \<Rightarrow> state \<Rightarrow> state" where
  "average_loop a [] avg = avg"
| "average_loop a (weighted_sample # rest) avg =
     (case avg of (avg_x, avg_y, avg_theta) \<Rightarrow>
      case weighted_sample of (w, x, y, theta) \<Rightarrow>
        average_loop a rest
          (fadd a avg_x (fmul a w x), fadd a avg_y (fmul a w y), fadd a avg_theta (fmul a w theta)))"

definition get_average_state :: "arith \<Rightarrow> particle list \<Rightarrow> state" where
  "get_average_state a ps = average_loop a ps (0, 0, 0)"

fun sum_loop :: "arith \<Rightarrow> particle list \<Rightarrow> real \<Rightarrow> real" where
  "sum_loop a [] sum_weights = sum_weights"
| "sum_loop a (weighted_sample # rest) sum_weights =
     sum_loop a rest (fadd a sum_weights (fst weighted_sample))"

text \<open>A list comprehension whose element expression may raise.\<close>

fun comprehension :: "('a \<Rightarrow> error + 'b) \<Rightarrow> 'a list \<Rightarrow> error + 'b list" where
  "comprehension g [] = Inr []"
| "comprehension g (x # xs) =
     bind (g x) (\<lambda>y. bind (comprehension g xs) (\<lambda>ys. Inr (y # ys)))"

definition normalize_weights :: "arith \<Rightarrow> particle list \<Rightarrow> error + particle list" where
  "normalize_weights a weighted_samples =
     (let sum_weights = sum_loop a weighted_samples 0 in
      if sum_weights < fl a (1 / 10 ^ 7)
      then comprehension
             (\<lambda>weighted_sample.
                bind (py_div a 1 (real (length weighted_samples)))
                  (\<lambda>w. Inr (w, snd weighted_sample)))
             weighted_samples
      else comprehension
             (\<lambda>weighted_sample.
                bind (py_div a (fst weighted_sample) sum_weights)
                  (\<lambda>w. Inr (w, snd weighted_sample)))
             weighted_samples)"

definition propagate_sample_Q ::
  "arith \<Rightarrow> particle_filter \<Rightarrow> rng \<Rightarrow> nat \<Rightarrow> state \<Rightarrow> real \<Rightarrow> real \<Rightarrow> state \<Rightarrow> error + state" where
  "propagate_sample_Q a f r i sample desired_distance desired_rotation Q =
     (case sample of (x, y, h) \<Rightarrow>
      case Q of (Q0, Q1, Q2) \<Rightarrow>
        let mean = (fadd a x (fmul a desired_distance (fl a (cos h))),
                    fadd a y (fmul a desired_distance (fl a (sin h))),
                    fadd a h desired_rotation);
            cov = (fsquare a Q0, fsquare a Q1, fsquare a Q2)
        in validate_state a f (multivariate_normal r i mean cov))"

fun likelihood_loop ::
  "arith \<Rightarrow> real \<times> real \<Rightarrow> state \<Rightarrow> (real \<times> real) list \<Rightarrow> nat \<Rightarrow> (real \<times> real) list
     \<Rightarrow> real \<Rightarrow> error + real" where
  "likelihood_loop a noise sample measurement i [] likelihood_sample = Inr likelihood_sample"
| "likelihood_loop a noise sample measurement i (lm # landmarks) likelihood_sample =
     (let dx = fsub a (fst sample) (fst lm);
          dy = fsub a (fst (snd sample)) (snd lm);
          expected_distance = fl a (sqrt (fadd a (fmul a dx dx) (fmul a dy dy)));
          expected_angle = fl a (arctan2 dy dx)
      in if length measurement \<le> i then Inl IndexError
         else
           bind (np_div a (- fsquare a (fsub a (fst (measurement ! i)) expected_distance))
                   (fmul a 2 (fsquare a (fst noise)))) (\<lambda>qd.
           bind (np_div a (- fsquare a (fsub a (snd (measurement ! i)) expected_angle))
                   (fmul a 2 (fsquare a (snd noise)))) (\<lambda>qa.
           likelihood_loop a noise sample measurement (Suc i) landmarks
             (fmul a likelihood_sample (fmul a (fl a (exp qd)) (fl a (exp qa)))))))"

definition compute_likelihood ::
  "arith \<Rightarrow> real \<times> real \<Rightarrow> state \<Rightarrow> (real \<times> real) list \<Rightarrow> (real \<times> real) list \<Rightarrow> error + real" where
  "compute_likelihood a noise sample measurement landmarks =
     likelihood_loop a noise sample measurement 0 landmarks 1"

section \<open>resampling\_algos.py\<close>

function naive_search_from :: "real list \<Rightarrow> real \<Rightarrow> nat \<Rightarrow> error + nat" where
  "naive_search_from cumulative_list x m =
     (if length cumulative_list \<le> m then Inl IndexError
      else if cumulative_list ! m < x then naive_search_from cumulative_list x (Suc m)
      else Inr m)"
  by pat_completeness auto
termination
  by (relation "measure (\<lambda>(cumulative_list, x, m). length cumulative_list - m)") auto

definition naive_search :: "real list \<Rightarrow> real \<Rightarrow> error + nat" where
  "naive_search cumulative_list x = naive_search_from cumulative_list x 0"

text \<open>\<^verbatim>\<open>np.cumsum(weights).tolist()\<close>: the running sums, each rounded.\<close>

fun cumsum_from :: "arith \<Rightarrow> real \<Rightarrow> real list \<Rightarrow> real list" where
  "cumsum_from a acc [] = []"
| "cumsum_from a acc (w # ws) = fadd a acc w # cumsum_from a (fadd a acc w) ws"

fun cumsum :: "arith \<Rightarrow> real list \<Rightarrow> real list" where
  "cumsum a [] = []"
| "cumsum a (w # ws) = w # cumsum_from a w ws"

text \<open>
  The loop of \<open>multinomial\<close>; \<open>k\<close> counts the iterations done, \<open>todo\<close> those left.
\<close>

fun multinomial_loop ::
  "arith \<Rightarrow> rng \<Rightarrow> particle list \<Rightarrow> int \<Rightarrow> real list \<Rightarrow> nat \<Rightarrow> nat \<Rightarrow> particle list
     \<Rightarrow> error + particle list" where
  "multinomial_loop a r samples N Q k 0 new_samples = Inr new_samples"
| "multinomial_loop a r samples N Q k (Suc todo) new_samples =
     (let u = uniform r k (fl a (1 / 10 ^ 10)) 1 in
      bind (naive_search Q u) (\<lambda>m.
      bind (py_div a 1 (of_int N)) (\<lambda>w.
      multinomial_loop a r samples N Q (Suc k) todo (new_samples @ [(w, snd (samples ! m))]))))"

definition multinomial :: "arith \<Rightarrow> rng \<Rightarrow> particle list \<Rightarrow> int \<Rightarrow> error + particle list" where
  "multinomial a r samples N =
     (let weights = map fst samples; Q = cumsum a weights
      in multinomial_loop a r samples N Q 0 (nat N) [])"

fun stratified_loop ::
  "arith \<Rightarrow> rng \<Rightarrow> particle list \<Rightarrow> int \<Rightarrow> real list \<Rightarrow> nat \<Rightarrow> nat \<Rightarrow> particle list
     \<Rightarrow> error + particle list" where
  "stratified_loop a r samples N Q n 0 new_samples = Inr new_samples"
| "stratified_loop a r samples N Q n (Suc todo) new_samples =
     bind (py_div a 1 (of_int N)) (\<lambda>high.
     let u0 = uniform r n (fl a (1 / 10 ^ 10)) high in
     bind (py_div a (fmul a (real n) 1) (of_int N)) (\<lambda>offset.
     let u = fadd a u0 offset in
     bind (naive_search Q u) (\<lambda>m.
     bind (py_div a 1 (of_int N)) (\<lambda>w.
     stratified_loop a r samples N Q (Suc n) todo (new_samples @ [(w, snd (samples ! m))])))))"

definition stratified :: "arith \<Rightarrow> rng \<Rightarrow> particle list \<Rightarrow> int \<Rightarrow> error + particle list" where
  "stratified a r samples N =
     (let weights = map fst samples; Q = cumsum a weights
      in stratified_loop a r samples N Q 0 (nat N) [])"

definition resample ::
  "arith \<Rightarrow> rng \<Rightarrow> particle list \<Rightarrow> int \<Rightarrow> string \<Rightarrow> error + particle list option" where
  "resample a r samples N algorithm =
     (if algorithm = ''MULTINOMIAL'' then bind (multinomial a r samples N) (\<lambda>ps. Inr (Some ps))
      else if algorithm = ''STRATIFIED'' then bind (stratified a r samples N) (\<lambda>ps. Inr (Some ps))
      else Inr None)"

section \<open>The resampling triggers\<close>

definition SIR_needs_resampling :: "particle list \<Rightarrow> error + bool" where
  "SIR_needs_resampling ps = Inr True"

fun squares_loop :: "arith \<Rightarrow> particle list \<Rightarrow> real \<Rightarrow> real" where
  "squares_loop a [] sum_weights_squared = sum_weights_squared"
| "squares_loop a (par # rest) sum_weights_squared =
     squares_loop a rest (fadd a sum_weights_squared (fsquare a (fst par)))"

text \<open>
  The sum starts at the integer \<^verbatim>\<open>0\<close>. The quotient raises when the sum is zero and the
  weights are Python floats, as they are after an initialisation, a reinitialisation or a
  resampling, and when there is no particle.
\<close>

definition NEPR_needs_resampling :: "arith \<Rightarrow> real \<Rightarrow> particle list \<Rightarrow> error + bool" where
  "NEPR_needs_resampling a resampling_threshold ps =
     bind (py_div a 1 (squares_loop a ps 0)) (\<lambda>q. Inr (q < resampling_threshold))"

fun max_loop :: "particle list \<Rightarrow> real \<Rightarrow> real" where
  "max_loop [] max_weight = max_weight"
| "max_loop (par # rest) max_weight = max_loop rest (max max_weight (fst par))"

text \<open>
  \<^verbatim>\<open>max_weight\<close> starts at the integer \<^verbatim>\<open>0\<close> and \<^verbatim>\<open>max\<close> keeps its first argument unless the
  second is greater, so a zero \<^verbatim>\<open>max_weight\<close> is still that integer and the quotient is
  the Python division.
\<close>

definition MWR_needs_resampling :: "arith \<Rightarrow> real \<Rightarrow> particle list \<Rightarrow> error + bool" where
  "MWR_needs_resampling a resampling_threshold ps =
     bind (py_div a 1 (max_loop ps 0)) (\<lambda>q. Inr (q < resampling_threshold))"

definition needs_resampling :: "arith \<Rightarrow> filter_class \<Rightarrow> particle list \<Rightarrow> error + bool" where
  "needs_resampling a c ps =
     (case c of
        ParticleFilterSIR \<Rightarrow> SIR_needs_resampling ps
      | ParticleFilterNEPR t \<Rightarrow> NEPR_needs_resampling a t ps
      | ParticleFilterMWR t \<Rightarrow> MWR_needs_resampling a t ps)"

section \<open>particle\_filter\_sir.py: the update cycle\<close>

fun update_loop ::
  "arith \<Rightarrow> particle_filter \<Rightarrow> rng \<Rightarrow> real \<Rightarrow> real \<Rightarrow> (real \<times> real) list \<Rightarrow> (real \<times> real) list
     \<Rightarrow> nat \<Rightarrow> particle list \<Rightarrow> particle list \<Rightarrow> error + particle list" where
  "update_loop a f r fwd ang measurements landmarks i [] new_particles = Inr new_particles"
| "update_loop a f r fwd ang measurements landmarks i (par # rest) new_particles =
     bind (propagate_sample_Q a f r i (snd par) fwd ang
             (fl a (7 / 100), fl a (7 / 100), fl a (1 / 10))) (\<lambda>propagated_state.
     bind (compute_likelihood a (measurement_noise f) propagated_state measurements landmarks)
       (\<lambda>likelihood.
     update_loop a f r fwd ang measurements landmarks (Suc i) rest
       (new_particles @ [(fmul a (fst par) likelihood, propagated_state)])))"

definition update ::
  "arith \<Rightarrow> rng \<Rightarrow> particle_filter \<Rightarrow> real \<Rightarrow> real \<Rightarrow> (real \<times> real) list \<Rightarrow> (real \<times> real) list
     \<Rightarrow> error + particle_filter" where
  "update a r f robot_forward_motion robot_angular_motion measurements landmarks =
     (case particles f of
        None \<Rightarrow> Inl TypeError
      | Some ps \<Rightarrow>
          bind (update_loop a f r robot_forward_motion robot_angular_motion measurements
                  landmarks 0 ps []) (\<lambda>new_particles.
          bind (normalize_weights a new_particles) (\<lambda>normalized.
          bind (needs_resampling a (filter_class f) normalized) (\<lambda>needed.
          if needed
          then bind (resample a r normalized (n_particles f) (resampling_algorithm f))
                 (\<lambda>resampled. Inr (f\<lparr>particles := resampled\<rparr>))
          else Inr (f\<lparr>particles := Some normalized\<rparr>)))))"

section \<open>Notions used in the statements\<close>

text \<open>The values that the loops of \<open>multinomial\<close> and \<open>stratified\<close> search for.\<close>

definition multinomial_draw :: "arith \<Rightarrow> rng \<Rightarrow> nat \<Rightarrow> real" where
  "multinomial_draw a r k = uniform r k (fl a (1 / 10 ^ 10)) 1"

definition stratified_draw :: "arith \<Rightarrow> rng \<Rightarrow> int \<Rightarrow> nat \<Rightarrow> real" where
  "stratified_draw a r N n =
     fadd a (uniform r n (fl a (1 / 10 ^ 10)) (fl a (1 / of_int N)))
            (fl a (fmul a (real n) 1 / of_int N))"

text \<open>Some cumulative weight is at least \<open>u\<close>.\<close>

definition covered :: "real list \<Rightarrow> real \<Rightarrow> bool" where
  "covered Q u = (\<exists>i<length Q. u \<le> Q ! i)"

text \<open>
  No sum and no quotient that \<open>normalize_weights\<close> computes in binary64 overflows: the
  value of \<^verbatim>\<open>sum_weights\<close> after \<open>k\<close> iterations is the sum of the first \<open>k\<close> weights, and
  the quotients are computed when the sum is not below \<^verbatim>\<open>1e-7\<close>.
\<close>

definition normalize_finite :: "particle list \<Rightarrow> bool" where
  "normalize_finite ws =
     ((\<forall>k\<in>{..length ws}. finite64 (sum_loop Binary64 (take k ws) 0)) \<and>
      (fl Binary64 (1 / 10 ^ 7) \<le> sum_loop Binary64 ws 0 \<longrightarrow>
         (\<forall>p\<in>set ws. finite64 (fl Binary64 (fst p / sum_loop Binary64 ws 0)))))"

text \<open>
  The covariance that \<open>update\<close> hands to \<open>propagate_sample_Q\<close>: the squares of
  \<^verbatim>\<open>[0.07, 0.07, 0.1]\<close>.
\<close>

definition fixed_covariance :: "arith \<Rightarrow> state" where
  "fixed_covariance a =
     (fsquare a (fl a (7 / 100)), fsquare a (fl a (7 / 100)), fsquare a (fl a (1 / 10)))"

text \<open>The filter that \<^verbatim>\<open>demo.py\<close> constructs.\<close>

definition demo_filter :: particle_filter where
  "demo_filter =
     \<lparr>filter_class = ParticleFilterMWR 200, n_particles = 3000,
      x_min = 0, x_max = 20, y_min = 0, y_max = 20,
      process_noise = (1 / 10, 1 / 5), measurement_noise = (1 / 5, 1 / 10),
      resampling_algorithm = ''STRATIFIED'', particles = None\<rparr>"

text \<open>
  Two random sources for the examples. Every uniform draw of both is the lower end of its
  interval; the normal draw of the first is the mean, that of the second is the mean only
  for the covariance above.
\<close>

definition lowest_draws :: rng where
  "lowest_draws = \<lparr>multivariate_normal = (\<lambda>i mean cov. mean), uniform = (\<lambda>k low high. low)\<rparr>"

text \<open>A random source whose every uniform draw is \<open>u\<close>.\<close>

definition fixed_draws :: "real \<Rightarrow> rng" where
  "fixed_draws u = \<lparr>multivariate_normal = (\<lambda>i mean cov. mean), uniform = (\<lambda>k low high. u)\<rparr>"

definition other_covariance_draws :: "arith \<Rightarrow> rng" where
  "other_covariance_draws a =
     \<lparr>multivariate_normal = (\<lambda>i mean cov. if cov = fixed_covariance a then mean else (0, 0, 0)),
      uniform = (\<lambda>k low high. low)\<rparr>"

section \<open>Facts about the arithmetic\<close>

lemma exponent64_eq:
  "2 powi e \<le> \<bar>x\<bar> \<Longrightarrow> \<bar>x\<bar> < 2 powi (e + 1) \<Longrightarrow> - 1022 \<le> e \<Longrightarrow> e \<le> int k - 1022
     \<Longrightarrow> exponent64 k x = e"
proof (induction k)
  case 0
  then show ?case by simp
next
  case (Suc k)
  show ?case
  proof (cases "e = int k - 1021")
    case True
    with Suc.prems show ?thesis by simp
  next
    case False
    with Suc.prems have le: "e + 1 \<le> int k - 1021" by simp
    have "(2::real) powi (e + 1) \<le> 2 powi (int k - 1021)"
      using le by (intro power_int_increasing) auto
    with Suc.prems have "\<not> 2 powi (int k - 1021) \<le> \<bar>x\<bar>" by linarith
    moreover have "exponent64 k x = e" using Suc False by simp
    ultimately show ?thesis by simp
  qed
qed

lemma binary64_eval:
  assumes "2 powi e \<le> \<bar>x\<bar>" "\<bar>x\<bar> < 2 powi (e + 1)" "- 1022 \<le> e" "e \<le> 1023"
  shows "binary64 x = 2 powi (e - 52) * of_int (round_half_even (x / 2 powi (e - 52)))"
proof -
  have "exponent64 2045 x = e" using assms by (intro exponent64_eq) auto
  then show ?thesis by (simp only: binary64_def Let_def)
qed

lemma binary64_0 [simp]: "binary64 0 = 0"
  by (simp add: binary64_def round_half_even_def)

lemma fl_0 [simp]: "fl a 0 = 0"
  by (cases a) simp_all

lemma bind_Inr [simp]: "bind (Inr x) f = f x"
  by (simp add: bind_def)

lemma bind_Inl [simp]: "bind (Inl e) f = Inl e"
  by (simp add: bind_def)

lemma py_div_nonzero [simp]: "y \<noteq> 0 \<Longrightarrow> py_div a x y = Inr (fl a (x / y))"
  by (simp add: py_div_def)

lemma py_div_zero [simp]: "py_div a x 0 = Inl ZeroDivisionError"
  by (simp add: py_div_def)

subsection \<open>Rounding to an integer\<close>

lemma round_half_even_ge_floor: "\<lfloor>t\<rfloor> \<le> round_half_even t"
  by (simp add: round_half_even_def Let_def)

lemma round_half_even_le_ceiling: "round_half_even t \<le> \<lceil>t\<rceil>"
proof (cases "t = of_int \<lfloor>t\<rfloor>")
  case True
  then have "t - of_int \<lfloor>t\<rfloor> < 1 / 2" by simp
  then have "round_half_even t = \<lfloor>t\<rfloor>" by (simp add: round_half_even_def Let_def)
  then show ?thesis by (simp add: floor_le_ceiling)
next
  case False
  then have "\<lceil>t\<rceil> = \<lfloor>t\<rfloor> + 1" by (simp add: ceiling_altdef)
  then show ?thesis by (simp add: round_half_even_def Let_def)
qed

lemma round_half_even_lower: "of_int K \<le> t \<Longrightarrow> K \<le> round_half_even t"
proof -
  assume "of_int K \<le> t"
  then have "K \<le> \<lfloor>t\<rfloor>" by (simp add: le_floor_iff)
  with round_half_even_ge_floor[of t] show ?thesis by linarith
qed

lemma round_half_even_upper: "t \<le> of_int K \<Longrightarrow> round_half_even t \<le> K"
proof -
  assume "t \<le> of_int K"
  then have "\<lceil>t\<rceil> \<le> K" by (simp add: ceiling_le_iff)
  with round_half_even_le_ceiling[of t] show ?thesis by linarith
qed

lemma round_half_even_of_int [simp]: "round_half_even (of_int n) = n"
  by (simp add: round_half_even_def)

lemma round_half_even_le_half: "of_int (round_half_even t) \<le> t + 1 / 2"
proof (cases "t - of_int \<lfloor>t\<rfloor> < 1 / 2")
  case True
  then have "round_half_even t = \<lfloor>t\<rfloor>" by (simp add: round_half_even_def Let_def)
  then show ?thesis using of_int_floor_le[of t] by (simp only:)
next
  case False
  then have "round_half_even t \<le> \<lfloor>t\<rfloor> + 1" by (simp add: round_half_even_def Let_def)
  then have "(of_int (round_half_even t) :: real) \<le> of_int (\<lfloor>t\<rfloor> + 1)"
    by (simp only: of_int_le_iff)
  with False show ?thesis by simp
qed

subsection \<open>The exponent\<close>

lemma exponent64_range: "- 1022 \<le> exponent64 k x \<and> exponent64 k x \<le> int k - 1022"
  by (induction k) auto

lemma exponent64_mono: "\<bar>x\<bar> \<le> \<bar>y\<bar> \<Longrightarrow> exponent64 k x \<le> exponent64 k y"
proof (induction k)
  case 0
  then show ?case by simp
next
  case (Suc k)
  show ?case
  proof (cases "2 powi (int k - 1021) \<le> \<bar>x\<bar>")
    case True
    with Suc.prems have "2 powi (int k - 1021) \<le> \<bar>y\<bar>" by linarith
    with True show ?thesis by simp
  next
    case False
    show ?thesis
    proof (cases "2 powi (int k - 1021) \<le> \<bar>y\<bar>")
      case True
      with False exponent64_range[of k x] show ?thesis by simp
    next
      case no: False
      with False Suc show ?thesis by simp
    qed
  qed
qed

lemma exponent64_upper:
  "exponent64 k x < int k - 1022 \<Longrightarrow> \<bar>x\<bar> < 2 powi (exponent64 k x + 1)"
proof (induction k)
  case 0
  then show ?case by simp
next
  case (Suc k)
  have no: "\<not> 2 powi (int k - 1021) \<le> \<bar>x\<bar>"
  proof
    assume "2 powi (int k - 1021) \<le> \<bar>x\<bar>"
    then have "exponent64 (Suc k) x = int k - 1021" by simp
    with Suc.prems show False by simp
  qed
  then have eq: "exponent64 (Suc k) x = exponent64 k x" by simp
  show ?case
  proof (cases "exponent64 k x < int k - 1022")
    case True
    with Suc.IH eq show ?thesis by simp
  next
    case False
    with exponent64_range[of k x] have "exponent64 k x = int k - 1022" by simp
    then have "exponent64 (Suc k) x + 1 = int k - 1021" using eq by simp
    with no show ?thesis by (simp only:)
  qed
qed

lemma exponent64_lower:
  "exponent64 k x \<noteq> - 1022 \<Longrightarrow> 2 powi (exponent64 k x) \<le> \<bar>x\<bar>"
  by (induction k) (auto split: if_splits)

lemma exponent64_one: "exponent64 2045 1 = 0"
  by (intro exponent64_eq) simp_all

lemma exponent64_2_53: "exponent64 2045 (2 ^ 53) = 53"
  by (intro exponent64_eq) simp_all

lemma power_int_split:
  assumes "(e1::int) \<le> e2"
  shows "(2::real) powi e2 = 2 powi e1 * of_int (2 ^ nat (e2 - e1))"
proof -
  have "(2::real) powi e2 = 2 powi (e1 + int (nat (e2 - e1)))" using assms by simp
  also have "\<dots> = 2 powi e1 * 2 powi int (nat (e2 - e1))"
    by (subst power_int_add) simp_all
  finally show ?thesis by (simp add: power_int_def)
qed

subsection \<open>Rounding to binary64\<close>

lemma binary64_bounds:
  assumes "2 powi e \<le> x" "x < 2 powi (e + 1)" "- 1022 \<le> e" "e \<le> 1023"
  shows "2 powi e \<le> binary64 x" "binary64 x \<le> 2 powi (e + 1)"
proof -
  let ?q = "(2::real) powi (e - 52)"
  have q: "0 < ?q" by simp
  have pos: "0 < x" using assms(1) by (smt (verit) zero_less_power_int)
  then have ax: "\<bar>x\<bar> = x" by simp
  have b: "binary64 x = ?q * of_int (round_half_even (x / ?q))"
    using assms ax by (intro binary64_eval) simp_all
  have e1: "(2::real) powi e = ?q * 2 ^ 52"
    by (simp add: power_int_diff)
  have e2: "(2::real) powi (e + 1) = ?q * 2 ^ 53"
    by (simp add: power_int_diff power_int_add)
  have "of_int (2 ^ 52) \<le> x / ?q"
    using assms(1) q by (simp add: e1 pos_le_divide_eq mult.commute)
  from round_half_even_lower[OF this]
  have "(of_int (2 ^ 52) :: real) \<le> of_int (round_half_even (x / ?q))"
    by (simp only: of_int_le_iff)
  then have "?q * of_int (2 ^ 52) \<le> ?q * of_int (round_half_even (x / ?q))"
    using q by (intro mult_left_mono) simp_all
  then show "2 powi e \<le> binary64 x" by (simp add: b e1)
  have "x / ?q \<le> of_int (2 ^ 53)"
    using assms(2) q by (simp add: e2 pos_divide_le_eq mult.commute)
  from round_half_even_upper[OF this]
  have "(of_int (round_half_even (x / ?q)) :: real) \<le> of_int (2 ^ 53)"
    by (simp only: of_int_le_iff)
  then have "?q * of_int (round_half_even (x / ?q)) \<le> ?q * of_int (2 ^ 53)"
    using q by (intro mult_left_mono) simp_all
  then show "binary64 x \<le> 2 powi (e + 1)" by (simp add: b e2)
qed

lemma binary64_nonneg: "0 \<le> y \<Longrightarrow> 0 \<le> binary64 y"
proof -
  assume "0 \<le> y"
  then have "of_int 0 \<le> y / 2 powi (exponent64 2045 y - 52)" by simp
  from round_half_even_lower[OF this] show ?thesis
    by (simp add: binary64_def Let_def)
qed

lemma binary64_nonpos: "y \<le> 0 \<Longrightarrow> binary64 y \<le> 0"
proof -
  assume "y \<le> 0"
  then have "y / 2 powi (exponent64 2045 y - 52) \<le> of_int 0"
    by (simp add: divide_nonpos_pos)
  from round_half_even_upper[OF this] show ?thesis
    by (simp add: binary64_def Let_def mult_nonneg_nonpos)
qed

lemma binary64_le_double:
  assumes "0 \<le> y" "y \<le> b" "binary64 b = b"
  shows "binary64 y \<le> b"
proof -
  let ?ey = "exponent64 2045 y" and ?eb = "exponent64 2045 b"
  let ?qy = "(2::real) powi (?ey - 52)" and ?qb = "(2::real) powi (?eb - 52)"
  let ?M = "round_half_even (b / ?qb)"
  have qy: "0 < ?qy" by simp
  have "\<bar>y\<bar> \<le> \<bar>b\<bar>" using assms by simp
  then have "?ey - 52 \<le> ?eb - 52" using exponent64_mono[of y b 2045] by simp
  from power_int_split[OF this]
  have qb: "?qb = ?qy * of_int (2 ^ nat (?eb - ?ey))" by (simp add: algebra_simps)
  have b: "b = ?qb * of_int ?M"
    using assms(3) by (simp add: binary64_def Let_def)
  let ?K = "2 ^ nat (?eb - ?ey) * ?M"
  have bK: "b = ?qy * of_int ?K"
    by (subst b, subst qb) simp
  have "y / ?qy \<le> of_int ?K"
    using assms(2) qy by (subst (asm) bK) (simp add: pos_divide_le_eq mult.commute)
  from round_half_even_upper[OF this]
  have "(of_int (round_half_even (y / ?qy)) :: real) \<le> of_int ?K"
    by (simp only: of_int_le_iff)
  then have "?qy * of_int (round_half_even (y / ?qy)) \<le> ?qy * of_int ?K"
    using qy by (intro mult_left_mono) simp_all
  then show ?thesis
    by (subst bK) (simp add: binary64_def Let_def)
qed

lemma multiple_is_double:
  "binary64 y = y" if "y = 2 powi (exponent64 2045 y - 52) * of_int K" for K :: int
proof -
  let ?q = "(2::real) powi (exponent64 2045 y - 52)"
  have "y / ?q = of_int K" by (subst that) simp
  then have "binary64 y = ?q * of_int K"
    by (simp add: binary64_def Let_def)
  with that show ?thesis by simp
qed

lemma binary64_idem [simp]: "binary64 (binary64 x) = binary64 x"
proof -
  define e where "e = exponent64 2045 x"
  define q :: real where "q = 2 powi (e - 52)"
  define M where "M = round_half_even (x / q)"
  define y where "y = q * of_int M"
  define e' where "e' = exponent64 2045 y"
  define q' :: real where "q' = 2 powi (e' - 52)"
  have q: "0 < q" by (simp add: q_def)
  have y: "binary64 x = y" by (simp add: binary64_def Let_def y_def M_def q_def e_def)
  have "\<exists>K::int. y = q' * of_int K"
  proof (cases "e' \<le> e")
    case True
    then have "e' - 52 \<le> e - 52" by simp
    from power_int_split[OF this]
    have "q = q' * of_int (2 ^ nat (e - e'))" by (simp add: q_def q'_def algebra_simps)
    then have "y = q' * (of_int (2 ^ nat (e - e')) * of_int M)"
      by (simp only: y_def mult.assoc)
    then have "y = q' * of_int (2 ^ nat (e - e') * M)"
      by (simp only: of_int_mult)
    then show ?thesis by (rule exI)
  next
    case False
    then have lt: "e < e'" by simp
    have "e' \<le> 1023" using exponent64_range[of 2045 y] by (simp add: e'_def)
    with lt have "exponent64 2045 x < int 2045 - 1022" by (simp add: e_def)
    from exponent64_upper[OF this] have x: "\<bar>x\<bar> < 2 powi (e + 1)" by (simp add: e_def)
    have e2: "(2::real) powi (e + 1) = q * 2 ^ 53"
      by (simp add: q_def power_int_diff power_int_add)
    have "\<bar>x\<bar> / q < 2 ^ 53"
      using x q by (simp only: e2 pos_divide_less_eq mult.commute)
    then have ax: "\<bar>x / q\<bar> < 2 ^ 53" using q by simp
    have ub: "x / q \<le> 2 ^ 53" and lb: "- (2 ^ 53) \<le> x / q"
      using abs_ge_self[of "x / q"] abs_ge_minus_self[of "x / q"] ax by linarith+
    have "x / q \<le> of_int (2 ^ 53)" using ub by simp
    from round_half_even_upper[OF this] have M1: "M \<le> 2 ^ 53" by (simp only: M_def)
    have "of_int (- (2 ^ 53)) \<le> x / q" using lb by simp
    from round_half_even_lower[OF this] have M2: "- (2 ^ 53) \<le> M" by (simp only: M_def)
    have "exponent64 2045 y \<noteq> - 1022"
      using lt exponent64_range[of 2045 x] by (simp add: e'_def e_def)
    from exponent64_lower[OF this] have ge: "2 powi e' \<le> \<bar>y\<bar>" by (simp only: e'_def)
    have "(2::real) powi (e + 1) \<le> 2 powi e'"
      using lt by (intro power_int_increasing) simp_all
    with ge have ge2: "q * 2 ^ 53 \<le> \<bar>y\<bar>" by (simp only: e2[symmetric])
    have ay: "\<bar>y\<bar> = q * of_int \<bar>M\<bar>" using q by (simp add: y_def abs_mult)
    from ge2 q have "(2 ^ 53 :: real) \<le> of_int \<bar>M\<bar>"
      by (simp only: ay) simp
    then have "(of_int (2 ^ 53) :: real) \<le> of_int \<bar>M\<bar>" by simp
    then have "2 ^ 53 \<le> \<bar>M\<bar>" by (simp only: of_int_le_iff)
    with M1 M2 have absM: "\<bar>M\<bar> = 2 ^ 53" by linarith
    have "(of_int \<bar>M\<bar> :: real) = 2 ^ 53" by (simp only: absM) simp
    then have ay2: "\<bar>y\<bar> = 2 powi (e + 1)" by (simp only: ay e2)
    have "\<not> e + 1 < e'"
    proof
      assume "e + 1 < e'"
      then have "(2::real) powi (e + 1) < 2 powi e'"
        by (intro power_int_strict_increasing) simp_all
      with ge ay2 show False by simp
    qed
    with lt have e': "e' = e + 1" by simp
    have q': "q' = q * 2" by (simp add: q'_def q_def e' power_int_diff power_int_add)
    from absM have "M = 2 ^ 53 \<or> M = - (2 ^ 53)" by linarith
    then have "M = 2 * (M div 2)" by auto
    then have "(of_int M :: real) = of_int (2 * (M div 2))" by simp
    then have "(of_int M :: real) = 2 * of_int (M div 2)" by simp
    then have "y = q' * of_int (M div 2)" by (simp only: y_def q')
    then show ?thesis by (rule exI)
  qed
  then obtain K :: int where "y = q' * of_int K" by blast
  then have "y = 2 powi (exponent64 2045 y - 52) * of_int K" by (simp only: q'_def e'_def)
  from multiple_is_double[OF this] show ?thesis by (simp only: y)
qed

lemma fl_idem [simp]: "fl a (fl a x) = fl a x"
  by (cases a) simp_all

lemma b64_one: "binary64 (1) = 1"
  by (subst binary64_eval[where e="0"]) (simp_all add: round_half_even_def)

lemma fl_1 [simp]: "fl a 1 = 1"
  using b64_one by (cases a) simp_all

lemma binary64_le_one:
  assumes "y < 1 + 1 / 2 ^ 53"
  shows "binary64 y \<le> 1"
proof (cases "y \<le> 1")
  case True
  show ?thesis
  proof (cases "0 \<le> y")
    case True
    from binary64_le_double[OF this \<open>y \<le> 1\<close> b64_one] show ?thesis .
  next
    case False
    then have "binary64 y \<le> 0" by (intro binary64_nonpos) simp
    then show ?thesis by simp
  qed
next
  case False
  then have gt: "1 < y" by simp
  have b: "binary64 y = 2 powi (0 - 52) * of_int (round_half_even (y / 2 powi (0 - 52)))"
    using gt assms by (intro binary64_eval) simp_all
  have lo: "of_int (2 ^ 52) \<le> y * 2 ^ 52" using gt by simp
  have hi: "y * 2 ^ 52 < of_int (2 ^ 52) + 1 / 2"
  proof -
    have "y * 2 ^ 52 < (1 + 1 / 2 ^ 53) * 2 ^ 52" using assms by simp
    also have "\<dots> = of_int (2 ^ 52) + 1 / 2" by simp
    finally show ?thesis .
  qed
  define t where "t = y * 2 ^ 52"
  have fl: "\<lfloor>t\<rfloor> = 2 ^ 52"
    using lo hi unfolding t_def by (intro floor_unique) simp_all
  have "t < of_int (2 ^ 52) + 1 / 2" using hi by (simp only: t_def)
  then have "t - of_int \<lfloor>t\<rfloor> < 1 / 2" by (simp only: fl)
  then have "round_half_even t = \<lfloor>t\<rfloor>" by (simp only: round_half_even_def Let_def if_True)
  then have r: "round_half_even t = 2 ^ 52" by (simp only: fl)
  have "y / 2 powi (0 - 52) = t" by (simp add: t_def power_int_minus)
  then have "binary64 y = 2 powi (0 - 52) * of_int (2 ^ 52)" by (simp only: b r)
  then show ?thesis by (simp add: power_int_minus)
qed

lemma binary64_relative_upper:
  assumes "2 powi (- 1022) \<le> x"
  shows "binary64 x \<le> x * (1 + 1 / 2 ^ 53)"
proof -
  define e where "e = exponent64 2045 x"
  define q :: real where "q = 2 powi (e - 52)"
  have pos: "0 < x" using assms by (smt (verit) zero_less_power_int)
  have q: "0 < q" by (simp add: q_def)
  have le: "2 powi e \<le> x"
  proof (cases "e = - 1022")
    case True
    with assms show ?thesis by simp
  next
    case False
    then have "exponent64 2045 x \<noteq> - 1022" by (simp add: e_def)
    from exponent64_lower[OF this] pos show ?thesis by (simp add: e_def)
  qed
  have qe: "q * 2 ^ 52 = 2 powi e" by (simp add: q_def power_int_diff)
  have "binary64 x = q * of_int (round_half_even (x / q))"
    by (simp add: binary64_def Let_def q_def e_def)
  also have "\<dots> \<le> q * (x / q + 1 / 2)"
    using q round_half_even_le_half[of "x / q"] by (intro mult_left_mono) simp_all
  also have "\<dots> = x + q / 2" using q by (simp add: algebra_simps)
  also have "q / 2 = (q * 2 ^ 52) / 2 ^ 53" by simp
  also have "\<dots> \<le> x / 2 ^ 53" unfolding qe using le by (simp add: divide_right_mono)
  finally show ?thesis by (simp add: algebra_simps)
qed

lemma binary64_nat:
  assumes "n \<le> 2 ^ 53"
  shows "binary64 (real n) = real n"
proof (cases "n = 0")
  case True
  then show ?thesis by simp
next
  case False
  define e where "e = exponent64 2045 (real n)"
  have n1: "1 \<le> real n" using False by simp
  have n2: "real n \<le> 2 ^ 53" using assms by (metis of_nat_le_iff of_nat_numeral of_nat_power)
  have "\<bar>1::real\<bar> \<le> \<bar>real n\<bar>" using n1 by simp
  from exponent64_mono[OF this, of 2045] have e0: "0 \<le> e" by (simp add: e_def exponent64_one)
  have "\<bar>real n\<bar> \<le> \<bar>2 ^ 53 :: real\<bar>" using n2 by simp
  from exponent64_mono[OF this, of 2045] have e53: "e \<le> 53" by (simp only: e_def exponent64_2_53)
  have "\<exists>K::int. real n = 2 powi (e - 52) * of_int K"
  proof (cases "e \<le> 52")
    case True
    then have "e - 52 \<le> 0" by simp
    from power_int_split[OF this]
    have one: "2 powi (e - 52) * of_int (2 ^ nat (52 - e)) = (1::real)" by simp
    have "real n = 1 * of_int (int n)" by simp
    then have "real n = (2 powi (e - 52) * of_int (2 ^ nat (52 - e))) * of_int (int n)"
      by (simp only: one)
    then have "real n = 2 powi (e - 52) * of_int (2 ^ nat (52 - e) * int n)"
      by (simp only: mult.assoc of_int_mult)
    then show ?thesis by (rule exI)
  next
    case False
    with e53 have e: "e = 53" by simp
    then have "exponent64 2045 (real n) \<noteq> - 1022" by (simp add: e_def)
    from exponent64_lower[OF this] have "2 ^ 53 \<le> real n" by (simp add: e_def[symmetric] e)
    with n2 have "real n = 2 ^ 53" by simp
    then have "real n = 2 powi (e - 52) * of_int (2 ^ 52)" by (simp add: e)
    then show ?thesis by (rule exI)
  qed
  then obtain K :: int where "real n = 2 powi (exponent64 2045 (real n) - 52) * of_int K"
    by (auto simp: e_def)
  from multiple_is_double[OF this] show ?thesis .
qed

lemma binary64_pi_bounds: "2 \<le> binary64 pi" "binary64 pi \<le> 4"
proof -
  have "2 powi 1 \<le> pi" using pi_ge_two by simp
  moreover have "pi < 2 powi (1 + 1)" using pi_less_4 by simp
  ultimately show "2 \<le> binary64 pi" "binary64 pi \<le> 4"
    using binary64_bounds[of 1 pi] by simp_all
qed

lemma binary64_8: "binary64 8 = 8"
  by (subst binary64_eval[where e="3"]) (simp_all add: round_half_even_def)

lemma two_pi_Binary64_pos: "0 < fmul Binary64 2 (fl Binary64 pi)"
proof (cases "2 * binary64 pi < 8")
  case True
  have "2 powi 2 \<le> 2 * binary64 pi" using binary64_pi_bounds by simp
  moreover have "2 * binary64 pi < 2 powi (2 + 1)" using True by simp
  ultimately have "2 powi 2 \<le> binary64 (2 * binary64 pi)"
    by (intro binary64_bounds) simp_all
  then show ?thesis by (simp add: fmul_def)
next
  case False
  then have "2 * binary64 pi = 8" using binary64_pi_bounds by simp
  then show ?thesis by (simp add: fmul_def binary64_8)
qed

lemma two_pi_pos: "0 < fmul a 2 (fl a pi)"
  using two_pi_Binary64_pos by (cases a) (simp_all add: fmul_def)

lemma unit_roundoff_pos: "0 < unit_roundoff"
  by (simp add: unit_roundoff_def)

lemma half_subnormal_pos: "0 < half_subnormal"
  by (simp add: half_subnormal_def)

lemma half_subnormal_small: "half_subnormal \<le> 1 / 2 ^ 200"
proof -
  have "(2::real) powi (- 1075) \<le> 2 powi (- 200)"
    by (intro power_int_increasing) simp_all
  then show ?thesis by (simp add: half_subnormal_def power_int_minus field_simps)
qed

lemma round_half_even_error: "\<bar>of_int (round_half_even t) - t\<bar> \<le> 1 / 2"
proof -
  define d where "d = t - of_int \<lfloor>t\<rfloor>"
  have d0: "0 \<le> d" and d1: "d < 1" unfolding d_def by linarith+
  have t: "t = of_int \<lfloor>t\<rfloor> + d" by (simp add: d_def)
  show ?thesis
  proof (cases "d < 1 / 2")
    case True
    then have "round_half_even t = \<lfloor>t\<rfloor>"
      by (simp add: round_half_even_def Let_def d_def)
    then have "of_int (round_half_even t) - t = - d" by (simp add: d_def)
    with True d0 show ?thesis by simp
  next
    case False
    then have "round_half_even t = \<lfloor>t\<rfloor> \<and> d = 1 / 2 \<or> round_half_even t = \<lfloor>t\<rfloor> + 1"
      by (auto simp: round_half_even_def Let_def d_def)
    then show ?thesis
    proof
      assume a: "round_half_even t = \<lfloor>t\<rfloor> \<and> d = 1 / 2"
      then have "of_int (round_half_even t) - t = - d" by (simp add: d_def)
      with a show ?thesis by simp
    next
      assume "round_half_even t = \<lfloor>t\<rfloor> + 1"
      then have "of_int (round_half_even t) - t = 1 - d" by (simp add: d_def)
      with False d1 show ?thesis by simp
    qed
  qed
qed

lemma binary64_error:
  "\<bar>binary64 x - x\<bar> \<le>
     (if exponent64 2045 x = - 1022 then half_subnormal else \<bar>x\<bar> * unit_roundoff)"
proof -
  define e where "e = exponent64 2045 x"
  define q :: real where "q = 2 powi (e - 52)"
  define t where "t = x / q"
  have q: "0 < q" by (simp add: q_def)
  have x: "x = q * t" using q by (simp add: t_def)
  have "binary64 x - x = q * (of_int (round_half_even t) - t)"
    by (subst (2) x) (simp add: binary64_def Let_def q_def e_def t_def algebra_simps)
  then have "\<bar>binary64 x - x\<bar> = q * \<bar>of_int (round_half_even t) - t\<bar>"
    using q by (simp add: abs_mult)
  also have "\<dots> \<le> q * (1 / 2)"
    using q round_half_even_error[of t] by (intro mult_left_mono) simp_all
  also have "\<dots> = 2 powi (e - 53)"
    by (simp add: q_def power_int_diff)
  finally have main: "\<bar>binary64 x - x\<bar> \<le> 2 powi (e - 53)" .
  show ?thesis
  proof (cases "e = - 1022")
    case True
    then have "(2::real) powi (e - 53) = half_subnormal" by (simp add: half_subnormal_def)
    with main True show ?thesis by (simp add: e_def)
  next
    case False
    then have "exponent64 2045 x \<noteq> - 1022" by (simp add: e_def)
    from exponent64_lower[OF this] have "2 powi e \<le> \<bar>x\<bar>" by (simp add: e_def)
    then have "2 powi e / 2 ^ 53 \<le> \<bar>x\<bar> / 2 ^ 53" by (simp add: divide_right_mono)
    moreover have "(2::real) powi (e - 53) = 2 powi e / 2 ^ 53" by (simp add: power_int_diff)
    ultimately have "\<bar>binary64 x - x\<bar> \<le> \<bar>x\<bar> * unit_roundoff"
      using main by (simp add: unit_roundoff_def)
    with False show ?thesis by (simp add: e_def)
  qed
qed

lemma binary64_abs_error: "\<bar>binary64 x - x\<bar> \<le> \<bar>x\<bar> * unit_roundoff + half_subnormal"
proof -
  have "0 \<le> \<bar>x\<bar> * unit_roundoff" using unit_roundoff_pos by simp
  with binary64_error[of x] half_subnormal_pos show ?thesis
    by (cases "exponent64 2045 x = - 1022") simp_all
qed

lemma binary64_rel_error:
  assumes "2 powi (- 1022) \<le> \<bar>x\<bar>"
  shows "\<bar>binary64 x - x\<bar> \<le> \<bar>x\<bar> * unit_roundoff"
proof (cases "exponent64 2045 x = - 1022")
  case True
  have "half_subnormal = 2 powi (- 1022) * unit_roundoff"
    unfolding half_subnormal_def unit_roundoff_def
    by (simp add: power_int_minus field_simps)
  also have "\<dots> \<le> \<bar>x\<bar> * unit_roundoff"
    using assms unit_roundoff_pos by (intro mult_right_mono) simp_all
  finally show ?thesis using binary64_error[of x] True by simp
next
  case False
  with binary64_error[of x] show ?thesis by simp
qed

lemma binary64_upper_error:
  "0 \<le> y \<Longrightarrow> binary64 y \<le> y + y * unit_roundoff + half_subnormal"
  using binary64_abs_error[of y] by (simp add: abs_le_iff)

lemma binary64_lower_error:
  "0 \<le> y \<Longrightarrow> y - y * unit_roundoff - half_subnormal \<le> binary64 y"
  using binary64_abs_error[of y] by (simp add: abs_le_iff)

lemma power_upper:
  assumes "0 \<le> (x::real)" "2 * real n * x \<le> 1"
  shows "(1 + x) ^ n \<le> 1 + 2 * real n * x"
  using assms
proof (induction n)
  case 0
  then show ?case by simp
next
  case (Suc n)
  have nx: "0 \<le> real n * x" using Suc.prems by simp
  have small: "2 * real n * x \<le> 1" using Suc.prems by (simp add: algebra_simps)
  from Suc.IH[OF Suc.prems(1) small] have "(1 + x) ^ n \<le> 1 + 2 * real n * x" .
  then have "(1 + x) ^ n * (1 + x) \<le> (1 + 2 * real n * x) * (1 + x)"
    using Suc.prems(1) by (intro mult_right_mono) simp_all
  also have "\<dots> = 1 + 2 * real n * x + x + (2 * real n * x) * x" by (simp add: algebra_simps)
  also have "(2 * real n * x) * x \<le> 1 * x"
    using small Suc.prems(1) by (intro mult_right_mono) simp_all
  finally show ?case by (simp add: algebra_simps)
qed

lemma power_lower:
  assumes "0 \<le> (x::real)" "x \<le> 1"
  shows "1 - real n * x \<le> (1 - x) ^ n"
  using Bernoulli_inequality[of "- x" n] assms by simp

subsection \<open>Roundings of the numbers that the examples compute\<close>

lemma b64_two: "binary64 (1 / (1 / 2)) = 2"
  by (subst binary64_eval[where e="1"]) (simp_all add: round_half_even_def)

lemma b64_half: "binary64 (1 / 2) = 1 / 2"
  by (subst binary64_eval[where e="-1"]) (simp_all add: round_half_even_def)

lemma b64_tiny: "binary64 (1 / 2 ^ 30) = 1 / 2 ^ 30"
  by (subst binary64_eval[where e="-30"]) (simp_all add: round_half_even_def)

lemma b64_20: "binary64 (20) = 20"
  by (subst binary64_eval[where e="4"]) (simp_all add: round_half_even_def)

lemma b64_1e10: "binary64 (1 / 10 ^ 10) = 7737125245533627 / 77371252455336267181195264"
  by (subst binary64_eval[where e="-34"]) (simp_all add: round_half_even_def)

lemma binary64_literal_1e7: "binary64 (1 / 10 ^ 7) = 7555786372591432 / 2 ^ 76"
  by (subst binary64_eval[where e="-24"]) (simp_all add: round_half_even_def)

lemma fl_1e7_pos: "0 < fl a (1 / 10 ^ 7)"
  using binary64_literal_1e7 by (cases a) simp_all

lemma b64_std_distance: "binary64 (1 / 5) = 3602879701896397 / 18014398509481984"
  by (subst binary64_eval[where e="-3"]) (simp_all add: round_half_even_def)

lemma b64_std_distance_sq: "binary64 (3602879701896397 / 18014398509481984 * (3602879701896397 / 18014398509481984)) = 1441151880758559 / 36028797018963968"
  by (subst binary64_eval[where e="-5"]) (simp_all add: round_half_even_def)

lemma b64_std_distance_den: "binary64 (2 * (1441151880758559 / 36028797018963968)) = 1441151880758559 / 18014398509481984"
  by (subst binary64_eval[where e="-4"]) (simp_all add: round_half_even_def)

lemma b64_std_angle: "binary64 (1 / 20) = 3602879701896397 / 72057594037927936"
  by (subst binary64_eval[where e="-5"]) (simp_all add: round_half_even_def)

lemma b64_std_angle_sq: "binary64 (3602879701896397 / 72057594037927936 * (3602879701896397 / 72057594037927936)) = 1441151880758559 / 576460752303423488"
  by (subst binary64_eval[where e="-9"]) (simp_all add: round_half_even_def)

lemma b64_std_angle_den: "binary64 (2 * (1441151880758559 / 576460752303423488)) = 1441151880758559 / 288230376151711744"
  by (subst binary64_eval[where e="-8"]) (simp_all add: round_half_even_def)

lemma b64_sixth: "binary64 (1 / 6) = 6004799503160661 / 36028797018963968"
  by (subst binary64_eval[where e="-3"]) (simp_all add: round_half_even_def)

lemma b64_sixth_fix: "binary64 (6004799503160661 / 36028797018963968 * 1) = 6004799503160661 / 36028797018963968"
  by (subst binary64_eval[where e="-3"]) (simp_all add: round_half_even_def)

lemma b64_avg1: "binary64 (0 + 6004799503160661 / 36028797018963968) = 6004799503160661 / 36028797018963968"
  by (subst binary64_eval[where e="-3"]) (simp_all add: round_half_even_def)

lemma b64_avg2: "binary64 (6004799503160661 / 36028797018963968 + 6004799503160661 / 36028797018963968) = 6004799503160661 / 18014398509481984"
  by (subst binary64_eval[where e="-2"]) (simp_all add: round_half_even_def)

lemma b64_avg3: "binary64 (6004799503160661 / 18014398509481984 + 6004799503160661 / 36028797018963968) = 1 / 2"
  by (subst binary64_eval[where e="-2"]) (simp_all add: round_half_even_def)

lemma b64_avg4: "binary64 (1 / 2 + 6004799503160661 / 36028797018963968) = 6004799503160661 / 9007199254740992"
  by (subst binary64_eval[where e="-1"]) (simp_all add: round_half_even_def)

lemma b64_avg5: "binary64 (6004799503160661 / 9007199254740992 + 6004799503160661 / 36028797018963968) = 3752999689475413 / 4503599627370496"
  by (subst binary64_eval[where e="-1"]) (simp_all add: round_half_even_def)

lemma b64_avg6: "binary64 (3752999689475413 / 4503599627370496 + 6004799503160661 / 36028797018963968) = 9007199254740991 / 9007199254740992"
  by (subst binary64_eval[where e="-1"]) (simp_all add: round_half_even_def)

lemma b64_fifth: "binary64 (1 / 5) = 3602879701896397 / 18014398509481984"
  by (subst binary64_eval[where e="-3"]) (simp_all add: round_half_even_def)

lemma b64_fifth_sq: "binary64 (3602879701896397 / 18014398509481984 * (3602879701896397 / 18014398509481984)) = 1441151880758559 / 36028797018963968"
  by (subst binary64_eval[where e="-5"]) (simp_all add: round_half_even_def)

lemma b64_sq1: "binary64 (0 + 1441151880758559 / 36028797018963968) = 1441151880758559 / 36028797018963968"
  by (subst binary64_eval[where e="-5"]) (simp_all add: round_half_even_def)

lemma b64_sq2: "binary64 (1441151880758559 / 36028797018963968 + 1441151880758559 / 36028797018963968) = 1441151880758559 / 18014398509481984"
  by (subst binary64_eval[where e="-4"]) (simp_all add: round_half_even_def)

lemma b64_sq3: "binary64 (1441151880758559 / 18014398509481984 + 1441151880758559 / 36028797018963968) = 4323455642275677 / 36028797018963968"
  by (subst binary64_eval[where e="-4"]) (simp_all add: round_half_even_def)

lemma b64_sq4: "binary64 (4323455642275677 / 36028797018963968 + 1441151880758559 / 36028797018963968) = 1441151880758559 / 9007199254740992"
  by (subst binary64_eval[where e="-3"]) (simp_all add: round_half_even_def)

lemma b64_sq5: "binary64 (1441151880758559 / 9007199254740992 + 1441151880758559 / 36028797018963968) = 7205759403792795 / 36028797018963968"
  by (subst binary64_eval[where e="-3"]) (simp_all add: round_half_even_def)

lemma b64_neff: "binary64 (1 / (7205759403792795 / 36028797018963968)) = 5629499534213119 / 1125899906842624"
  by (subst binary64_eval[where e="2"]) (simp_all add: round_half_even_def)

lemma b64_wrap: "binary64 (- (1 / 2 ^ 70) + 20) = 20"
  by (subst binary64_eval[where e="4"]) (simp_all add: round_half_even_def)

lemma replicate_6: "replicate 6 p = [p, p, p, p, p, p]"
  by (simp add: eval_nat_numeral)

lemma replicate_5: "replicate 5 p = [p, p, p, p, p]"
  by (simp add: eval_nat_numeral)

lemma b64_w13_sum1: "binary64 (0 + 7) = 7"
  by (subst binary64_eval[where e="2"]) (simp_all add: round_half_even_def)

lemma b64_w13_sum2: "binary64 (7 + 3) = 10"
  by (subst binary64_eval[where e="3"]) (simp_all add: round_half_even_def)

lemma b64_w13_sum3: "binary64 (10 + 1) = 11"
  by (subst binary64_eval[where e="3"]) (simp_all add: round_half_even_def)

lemma b64_w13_sum4: "binary64 (11 + 1) = 12"
  by (subst binary64_eval[where e="3"]) (simp_all add: round_half_even_def)

lemma b64_w13_sum5: "binary64 (12 + 1) = 13"
  by (subst binary64_eval[where e="3"]) (simp_all add: round_half_even_def)

lemma b64_w13_quot7: "binary64 (7 / 13) = 4850030367937457 / 9007199254740992"
  by (subst binary64_eval[where e="-1"]) (simp_all add: round_half_even_def)

lemma b64_w13_quot3: "binary64 (3 / 13) = 4157168886803535 / 18014398509481984"
  by (subst binary64_eval[where e="-3"]) (simp_all add: round_half_even_def)

lemma b64_w13_quot1: "binary64 (1 / 13) = 1385722962267845 / 18014398509481984"
  by (subst binary64_eval[where e="-4"]) (simp_all add: round_half_even_def)

lemma b64_w13_cum2: "binary64 (4850030367937457 / 9007199254740992 + 4157168886803535 / 18014398509481984) = 866076851417403 / 1125899906842624"
  by (subst binary64_eval[where e="-1"]) (simp_all add: round_half_even_def)

lemma b64_w13_cum3: "binary64 (866076851417403 / 1125899906842624 + 1385722962267845 / 18014398509481984) = 3810738146236573 / 4503599627370496"
  by (subst binary64_eval[where e="-1"]) (simp_all add: round_half_even_def)

lemma b64_w13_cum4: "binary64 (3810738146236573 / 4503599627370496 + 1385722962267845 / 18014398509481984) = 2078584443401767 / 2251799813685248"
  by (subst binary64_eval[where e="-1"]) (simp_all add: round_half_even_def)

lemma b64_w13_cum5: "binary64 (2078584443401767 / 2251799813685248 + 1385722962267845 / 18014398509481984) = 4503599627370495 / 4503599627370496"
  by (subst binary64_eval[where e="-1"]) (simp_all add: round_half_even_def)

lemma b64_below_one: "binary64 (1 - 1 / 2 ^ 53) = 1 - 1 / 2 ^ 53"
  by (subst binary64_eval[where e="-1"]) (simp_all add: round_half_even_def)

lemma b64_cancel_sum1: "binary64 (0 + 9007199254740992) = 9007199254740992"
  by (subst binary64_eval[where e="53"]) (simp_all add: round_half_even_def)

lemma b64_cancel_sum2: "binary64 (9007199254740992 + 3) = 9007199254740996"
  by (subst binary64_eval[where e="53"]) (simp_all add: round_half_even_def)

lemma b64_cancel_sum3: "binary64 (9007199254740996 + - 9007199254740992) = 4"
  by (subst binary64_eval[where e="2"]) (simp_all add: round_half_even_def)

lemma b64_cancel_quot_a: "binary64 (9007199254740992 / 4) = 2251799813685248"
  by (subst binary64_eval[where e="51"]) (simp_all add: round_half_even_def)

lemma b64_cancel_quot_b: "binary64 (3 / 4) = 3 / 4"
  by (subst binary64_eval[where e="-1"]) (simp_all add: round_half_even_def)

lemma b64_cancel_quot_c: "binary64 (- 9007199254740992 / 4) = - 2251799813685248"
  by (subst binary64_eval[where e="51"]) (simp_all add: round_half_even_def)

lemma b64_quarter: "binary64 (1 / 4) = 1 / 4"
  by (subst binary64_eval[where e="-2"]) (simp_all add: round_half_even_def)

lemma b64_absorb: "binary64 (1 + 1 / 2 ^ 54) = 1"
  by (subst binary64_eval[where e="0"]) (simp_all add: round_half_even_def)

lemma b64_small: "binary64 (1 / 2 ^ 54) = 1 / 2 ^ 54"
  by (subst binary64_eval[where e="-54"]) (simp_all add: round_half_even_def)

section \<open>Facts about the functions of particle\_filter\_base.py\<close>

lemma np_mod_Exact:
  assumes "0 < m"
  shows "np_mod Exact x m = Inr (x - m * of_int \<lfloor>x / m\<rfloor>)"
proof (cases "0 \<le> x / m")
  case True
  have "m * of_int \<lfloor>x / m\<rfloor> \<le> x"
    using assms by (metis floor_divide_lower mult.commute)
  then have "\<not> x - m * of_int \<lfloor>x / m\<rfloor> < 0" by simp
  with True assms show ?thesis
    by (simp add: np_mod_def fmod_def round_toward_zero_def Let_def)
next
  case False
  then have neg: "x / m < 0" by simp
  have up: "x \<le> m * of_int \<lceil>x / m\<rceil>"
    using assms by (metis ceiling_divide_upper mult.commute)
  show ?thesis
  proof (cases "x / m = of_int \<lfloor>x / m\<rfloor>")
    case True
    then have "\<lceil>x / m\<rceil> = \<lfloor>x / m\<rfloor>" by (metis ceiling_of_int)
    moreover have "x = m * of_int \<lfloor>x / m\<rfloor>" using True assms
      by (metis less_irrefl nonzero_mult_div_cancel_left times_divide_eq_right mult.commute
          nonzero_eq_divide_eq)
    ultimately show ?thesis using neg assms
      by (simp add: np_mod_def fmod_def round_toward_zero_def Let_def)
  next
    case False
    then have c: "\<lceil>x / m\<rceil> = \<lfloor>x / m\<rfloor> + 1" by (simp add: ceiling_altdef)
    have "x \<noteq> m * of_int \<lceil>x / m\<rceil>"
    proof
      assume "x = m * of_int \<lceil>x / m\<rceil>"
      then have "x / m = of_int \<lceil>x / m\<rceil>" using assms by (simp add: field_simps)
      then show False using False by (metis floor_of_int)
    qed
    with up have lt: "x - m * of_int \<lceil>x / m\<rceil> < 0" by simp
    have "x - m * of_int \<lceil>x / m\<rceil> + m = x - m * of_int \<lfloor>x / m\<rfloor>"
      by (simp add: c algebra_simps)
    with lt neg assms show ?thesis
      by (simp add: np_mod_def fmod_def round_toward_zero_def Let_def)
  qed
qed

lemma floor_remainder_range:
  assumes "0 < (m::real)"
  shows "0 \<le> x - m * of_int \<lfloor>x / m\<rfloor>" "x - m * of_int \<lfloor>x / m\<rfloor> < m"
proof -
  have "m * of_int \<lfloor>x / m\<rfloor> \<le> x"
    using assms by (metis floor_divide_lower mult.commute)
  then show "0 \<le> x - m * of_int \<lfloor>x / m\<rfloor>" by simp
  have "x < m * (of_int \<lfloor>x / m\<rfloor> + 1)"
    using assms by (metis floor_divide_upper mult.commute)
  then show "x - m * of_int \<lfloor>x / m\<rfloor> < m" by (simp add: algebra_simps)
qed

lemma fmod_range:
  assumes "0 < m"
  shows "- m < fmod x m" "fmod x m < m"
proof -
  let ?t = "x / m"
  have x: "x = m * ?t" using assms by simp
  have d: "fmod x m = m * (?t - of_int (round_toward_zero ?t))"
    by (subst (1) x) (simp add: fmod_def algebra_simps)
  have "- 1 < ?t - of_int (round_toward_zero ?t) \<and> ?t - of_int (round_toward_zero ?t) < 1"
    unfolding round_toward_zero_def by (cases "0 \<le> ?t") (simp_all, linarith+)
  then have "m * (- 1) < m * (?t - of_int (round_toward_zero ?t))"
    "m * (?t - of_int (round_toward_zero ?t)) < m * 1"
    using assms by (simp_all only: mult_less_cancel_left_pos)
  then show "- m < fmod x m" "fmod x m < m" by (simp_all only: d)
qed

lemma np_mod_range:
  assumes "0 < m" "fl a m = m"
  shows "\<exists>r. np_mod a x m = Inr r \<and> 0 \<le> r \<and> r \<le> m"
proof (cases "fmod x m < 0")
  case True
  have lo: "0 \<le> fmod x m + m" and hi: "fmod x m + m \<le> m"
    using fmod_range[OF assms(1), of x] True by simp_all
  have "0 \<le> fl a (fmod x m + m) \<and> fl a (fmod x m + m) \<le> m"
  proof (cases a)
    case Exact
    with lo hi show ?thesis by simp
  next
    case Binary64
    with assms(2) have "binary64 m = m" by simp
    from binary64_le_double[OF lo hi this] binary64_nonneg[OF lo] Binary64
    show ?thesis by simp
  qed
  with True assms(1) show ?thesis by (simp add: np_mod_def Let_def)
next
  case False
  with fmod_range[OF assms(1), of x] assms(1) show ?thesis
    by (simp add: np_mod_def Let_def)
qed

lemma validate_state_range:
  assumes "0 < x_max f" "0 < y_max f" "fl a (x_max f) = x_max f" "fl a (y_max f) = y_max f"
  shows "\<exists>x' y' h'. validate_state a f (x, y, h) = Inr (x', y', h') \<and>
           0 \<le> x' \<and> x' \<le> x_max f \<and> 0 \<le> y' \<and> y' \<le> y_max f \<and>
           0 \<le> h' \<and> h' \<le> fmul a 2 (fl a pi)"
proof -
  from np_mod_range[OF assms(1,3), of x]
  obtain x' where x': "np_mod a x (x_max f) = Inr x'" "0 \<le> x'" "x' \<le> x_max f" by blast
  from np_mod_range[OF assms(2,4), of y]
  obtain y' where y': "np_mod a y (y_max f) = Inr y'" "0 \<le> y'" "y' \<le> y_max f" by blast
  have "fl a (fmul a 2 (fl a pi)) = fmul a 2 (fl a pi)" by (simp add: fmul_def)
  from np_mod_range[OF two_pi_pos this, of h]
  obtain h' where h': "np_mod a h (fmul a 2 (fl a pi)) = Inr h'" "0 \<le> h'"
    "h' \<le> fmul a 2 (fl a pi)" by blast
  from x' y' h' show ?thesis by (simp add: validate_state_def)
qed

lemma np_mod_tiny_negative: "np_mod Binary64 (- (1 / 2 ^ 70)) 20 = Inr 20"
proof -
  have "\<lceil>- (1 / 2 ^ 70) / 20 :: real\<rceil> = 0"
    by (intro ceiling_unique) simp_all
  then have "round_toward_zero (- (1 / 2 ^ 70) / 20) = 0"
    by (simp only: round_toward_zero_def) simp
  then have "fmod (- (1 / 2 ^ 70)) 20 = - (1 / 2 ^ 70)"
    by (simp add: fmod_def)
  then have "np_mod Binary64 (- (1 / 2 ^ 70)) 20 = Inr (fl Binary64 (- (1 / 2 ^ 70) + 20))"
    by (simp add: np_mod_def)
  then show ?thesis by (simp only: fl.simps b64_wrap)
qed

lemma np_mod_zero: "m \<noteq> 0 \<Longrightarrow> np_mod a 0 m = Inr 0"
  by (simp add: np_mod_def fmod_def round_toward_zero_def)

lemma initialize_known:
  assumes "1 \<le> n_particles f"
  shows "particle_initialize_uniform_original_state_known a f s =
     Inr (f\<lparr>particles := Some (replicate (nat (n_particles f))
                                   (fl a (1 / of_int (n_particles f)), s))\<rparr>)"
  using assms by (simp add: particle_initialize_uniform_original_state_known_def)

lemma average_loop_Exact_replicate:
  "average_loop Exact (replicate n (w, x, y, t)) (ax, ay, ah) =
     (ax + real n * (w * x), ay + real n * (w * y), ah + real n * (w * t))"
  by (induction n arbitrary: ax ay ah) (simp_all add: fadd_def fmul_def algebra_simps)

lemma average_of_identical_states_Exact:
  assumes "1 \<le> N"
  shows "get_average_state Exact (replicate (nat N) (1 / of_int N, s)) = s"
proof -
  obtain x y t where s: "s = (x, y, t)" by (cases s)
  have "real (nat N) * (1 / of_int N) = 1" using assms by simp
  then have "\<And>z. real (nat N) * (1 / of_int N * z) = z"
    by (metis mult.assoc mult_1)
  then show ?thesis
    unfolding s get_average_state_def average_loop_Exact_replicate by simp
qed

lemma comprehension_Inr: "comprehension (\<lambda>x. Inr (g x)) xs = Inr (map g xs)"
  by (induction xs) simp_all

lemma sum_loop_Exact: "sum_loop Exact ws acc = acc + sum_list (map fst ws)"
  by (induction ws arbitrary: acc) (simp_all add: fadd_def)

lemma normalize_weights_low_sum:
  assumes "ws \<noteq> []" "sum_loop a ws 0 < fl a (1 / 10 ^ 7)"
  shows "normalize_weights a ws = Inr (map (\<lambda>p. (fl a (1 / real (length ws)), snd p)) ws)"
proof -
  have "real (length ws) \<noteq> 0" using assms(1) by simp
  then show ?thesis using assms(2)
    by (simp add: normalize_weights_def comprehension_Inr)
qed

lemma normalize_weights_high_sum:
  assumes "fl a (1 / 10 ^ 7) \<le> sum_loop a ws 0"
  shows "normalize_weights a ws = Inr (map (\<lambda>p. (fl a (fst p / sum_loop a ws 0), snd p)) ws)"
proof -
  have "sum_loop a ws 0 \<noteq> 0" using assms fl_1e7_pos[of a] by linarith
  then show ?thesis using assms
    by (simp add: normalize_weights_def comprehension_Inr not_less[symmetric])
qed

lemma sum_list_const_div: "sum_list (map (\<lambda>p. fst p / (c::real)) ws) = sum_list (map fst ws) / c"
  by (induction ws) (simp_all add: add_divide_distrib)

lemma sum_list_fst_nonneg:
  "\<forall>p\<in>set ws. 0 \<le> fst p \<Longrightarrow> 0 \<le> sum_list (map fst ws)" for ws :: "particle list"
  by (induction ws) simp_all

lemma sum_loop_Binary64_nonneg:
  "\<forall>p\<in>set ws. 0 \<le> fst p \<Longrightarrow> 0 \<le> s \<Longrightarrow> 0 \<le> sum_loop Binary64 ws s"
proof (induction ws arbitrary: s)
  case Nil
  then show ?case by simp
next
  case (Cons p ws)
  then have "0 \<le> binary64 (s + fst p)" by (intro binary64_nonneg) simp
  with Cons show ?case by (simp add: fadd_def)
qed

lemma sum_loop_Binary64_upper:
  "\<forall>p\<in>set ws. 0 \<le> fst p \<Longrightarrow> 0 \<le> s \<Longrightarrow>
   sum_loop Binary64 ws s \<le>
     (s + sum_list (map fst ws) + real (length ws) * half_subnormal) * (1 + unit_roundoff) ^ length ws"
proof (induction ws arbitrary: s)
  case Nil
  then show ?case by simp
next
  case (Cons p ws)
  define w where "w = fst p"
  define s' where "s' = binary64 (s + w)"
  define R where "R = sum_list (map fst ws)"
  define n where "n = real (length ws)"
  define P where "P = (1 + unit_roundoff) ^ length ws"
  note u = unit_roundoff_pos and h = half_subnormal_pos
  have w0: "0 \<le> w" using Cons.prems by (simp add: w_def)
  have R0: "0 \<le> R" unfolding R_def using Cons.prems by (intro sum_list_fst_nonneg) simp
  have n0: "0 \<le> n" by (simp add: n_def)
  have P0: "0 \<le> P" unfolding P_def using u by simp
  have s'0: "0 \<le> s'" unfolding s'_def using w0 Cons.prems by (intro binary64_nonneg) simp
  have s'1: "s' \<le> (s + w) + (s + w) * unit_roundoff + half_subnormal"
    unfolding s'_def using w0 Cons.prems by (intro binary64_upper_error) simp
  have IH: "sum_loop Binary64 ws s' \<le> (s' + R + n * half_subnormal) * P"
    unfolding R_def n_def P_def using Cons.prems s'0 by (intro Cons.IH) simp_all
  have a: "0 \<le> R * unit_roundoff" using R0 u by simp
  have b: "0 \<le> (n + 1) * half_subnormal * unit_roundoff" using n0 u h by simp
  have B: "s' + R + n * half_subnormal \<le>
      (s + w + R + (n + 1) * half_subnormal) * (1 + unit_roundoff)"
  proof -
    have "(s + w + R + (n + 1) * half_subnormal) * (1 + unit_roundoff) =
        (s + w) + (s + w) * unit_roundoff + R + R * unit_roundoff +
        (n + 1) * half_subnormal + (n + 1) * half_subnormal * unit_roundoff"
      by (simp add: algebra_simps)
    moreover have "(n + 1) * half_subnormal = n * half_subnormal + half_subnormal"
      by (simp add: algebra_simps)
    ultimately show ?thesis using s'1 a b by linarith
  qed
  have "sum_loop Binary64 (p # ws) s = sum_loop Binary64 ws s'"
    by (simp add: fadd_def s'_def w_def)
  also note IH
  also have "(s' + R + n * half_subnormal) * P \<le>
      ((s + w + R + (n + 1) * half_subnormal) * (1 + unit_roundoff)) * P"
    using B P0 by (rule mult_right_mono)
  also have "\<dots> = (s + sum_list (map fst (p # ws)) + real (length (p # ws)) * half_subnormal) *
      (1 + unit_roundoff) ^ length (p # ws)"
    by (simp add: w_def R_def n_def P_def algebra_simps)
  finally show ?case .
qed

lemma sum_loop_Binary64_lower:
  "\<forall>p\<in>set ws. 0 \<le> fst p \<Longrightarrow> 0 \<le> s \<Longrightarrow>
   (s + sum_list (map fst ws)) * (1 - unit_roundoff) ^ length ws
     - real (length ws) * half_subnormal \<le> sum_loop Binary64 ws s"
proof (induction ws arbitrary: s)
  case Nil
  then show ?case by simp
next
  case (Cons p ws)
  define w where "w = fst p"
  define s' where "s' = binary64 (s + w)"
  define R where "R = sum_list (map fst ws)"
  define n where "n = real (length ws)"
  define P where "P = (1 - unit_roundoff) ^ length ws"
  note u = unit_roundoff_pos and h = half_subnormal_pos
  have u1: "unit_roundoff \<le> 1" by (simp add: unit_roundoff_def)
  have w0: "0 \<le> w" using Cons.prems by (simp add: w_def)
  have R0: "0 \<le> R" unfolding R_def using Cons.prems by (intro sum_list_fst_nonneg) simp
  have P0: "0 \<le> P" unfolding P_def using u1 by simp
  have P1: "P \<le> 1" unfolding P_def using u u1 by (intro power_le_one) simp_all
  have s'0: "0 \<le> s'" unfolding s'_def using w0 Cons.prems by (intro binary64_nonneg) simp
  have s'1: "(s + w) - (s + w) * unit_roundoff - half_subnormal \<le> s'"
    unfolding s'_def using w0 Cons.prems by (intro binary64_lower_error) simp
  have IH: "(s' + R) * P - n * half_subnormal \<le> sum_loop Binary64 ws s'"
    unfolding R_def n_def P_def using Cons.prems s'0 by (intro Cons.IH) simp_all
  have a: "0 \<le> R * unit_roundoff" using R0 u by simp
  have B: "(s + w + R) * (1 - unit_roundoff) - half_subnormal \<le> s' + R"
  proof -
    have "(s + w + R) * (1 - unit_roundoff) =
        (s + w) - (s + w) * unit_roundoff + R - R * unit_roundoff"
      by (simp add: algebra_simps)
    then show ?thesis using s'1 a by linarith
  qed
  have C: "((s + w + R) * (1 - unit_roundoff) - half_subnormal) * P \<le> (s' + R) * P"
    using B P0 by (rule mult_right_mono)
  have D: "half_subnormal * P \<le> half_subnormal"
    using P1 h by (simp add: mult_left_le)
  have "(s + w + R) * (1 - unit_roundoff) * P - (n + 1) * half_subnormal =
      ((s + w + R) * (1 - unit_roundoff) - half_subnormal) * P
        + (half_subnormal * P - half_subnormal) - n * half_subnormal"
    by (simp add: algebra_simps)
  also have "\<dots> \<le> (s' + R) * P - n * half_subnormal" using C D by linarith
  also note IH
  finally have "(s + w + R) * (1 - unit_roundoff) * P - (n + 1) * half_subnormal
      \<le> sum_loop Binary64 ws s'" .
  then show ?case
    by (simp add: fadd_def s'_def w_def R_def n_def P_def algebra_simps)
qed

lemma quotients_upper:
  fixes ws :: "particle list"
  assumes "\<forall>p\<in>set ws. 0 \<le> fst p" "0 < S"
  shows "sum_list (map (\<lambda>p. binary64 (fst p / S)) ws) \<le>
     sum_list (map fst ws) / S * (1 + unit_roundoff) + real (length ws) * half_subnormal"
  using assms(1)
proof (induction ws)
  case Nil
  then show ?case by simp
next
  case (Cons p ws)
  have "0 \<le> fst p / S" using Cons.prems assms(2) by simp
  from binary64_upper_error[OF this] Cons show ?case
    by (simp add: algebra_simps add_divide_distrib)
qed

lemma quotients_lower:
  fixes ws :: "particle list"
  assumes "\<forall>p\<in>set ws. 0 \<le> fst p" "0 < S"
  shows "sum_list (map fst ws) / S * (1 - unit_roundoff) - real (length ws) * half_subnormal
     \<le> sum_list (map (\<lambda>p. binary64 (fst p / S)) ws)"
  using assms(1)
proof (induction ws)
  case Nil
  then show ?case by simp
next
  case (Cons p ws)
  have "0 \<le> fst p / S" using Cons.prems assms(2) by simp
  from binary64_lower_error[OF this] Cons show ?case
    by (simp add: algebra_simps add_divide_distrib diff_divide_distrib)
qed

lemma normalize_weights_Binary64_low_sum_total:
  fixes ws :: "particle list"
  assumes "ws \<noteq> []" "length ws \<le> 2 ^ 20"
  shows "\<bar>sum_list (map fst (map (\<lambda>p. (binary64 (1 / real (length ws)), snd p)) ws)) - 1\<bar>
     \<le> 1 / 10 ^ 9"
proof -
  define n where "n = real (length ws)"
  define b where "b = binary64 (1 / n)"
  have n1: "1 \<le> n" using assms(1) by (cases ws) (simp_all add: n_def)
  have "real (length ws) \<le> real (2 ^ 20)" using assms(2) by (simp only: of_nat_le_iff)
  then have n2: "n \<le> 2 ^ 20" by (simp add: n_def)
  have "(2::real) powi (- 1022) \<le> 1 / 2 ^ 20"
    by (simp add: power_int_minus field_simps)
  also have "\<dots> \<le> 1 / n" using n1 n2 by (simp add: frac_le)
  finally have "2 powi (- 1022) \<le> \<bar>1 / n\<bar>" using n1 by simp
  from binary64_rel_error[OF this] have "\<bar>b - 1 / n\<bar> \<le> 1 / n * unit_roundoff"
    using n1 by (simp add: b_def)
  then have "n * \<bar>b - 1 / n\<bar> \<le> n * (1 / n * unit_roundoff)"
    using n1 by (intro mult_left_mono) simp_all
  moreover have "n * b - 1 = n * (b - 1 / n)" using n1 by (simp add: algebra_simps)
  then have "\<bar>n * b - 1\<bar> = n * \<bar>b - 1 / n\<bar>" using n1 by (simp only: abs_mult)
  moreover have "n * (1 / n * unit_roundoff) = unit_roundoff" using n1 by simp
  ultimately have "\<bar>n * b - 1\<bar> \<le> unit_roundoff" by (simp only:)
  moreover have "unit_roundoff \<le> 1 / 10 ^ 9" by (simp add: unit_roundoff_def)
  moreover have "sum_list (map fst (map (\<lambda>p. (binary64 (1 / real (length ws)), snd p)) ws)) = n * b"
    by (simp add: o_def sum_list_triv n_def b_def)
  ultimately show ?thesis by simp
qed

lemma normalize_weights_Binary64_high_sum_total:
  fixes ws :: "particle list"
  assumes nonneg: "\<forall>p\<in>set ws. 0 \<le> fst p" and len: "length ws \<le> 2 ^ 20"
    and high: "binary64 (1 / 10 ^ 7) \<le> sum_loop Binary64 ws 0"
  shows "\<bar>sum_list (map (\<lambda>p. binary64 (fst p / sum_loop Binary64 ws 0)) ws) - 1\<bar> \<le> 1 / 10 ^ 9"
proof -
  define n where "n = real (length ws)"
  define S where "S = sum_loop Binary64 ws 0"
  define W where "W = sum_list (map fst ws)"
  define d where "d = n * half_subnormal"
  define a where "a = W / S"
  define dd where "dd = d / S"
  define out where "out = sum_list (map (\<lambda>p. binary64 (fst p / S)) ws)"
  note u = unit_roundoff_pos and h = half_subnormal_pos
  have "7555786372591432 / 2 ^ 76 \<le> S"
    using high by (simp only: S_def binary64_literal_1e7)
  moreover have "(1::real) / 2 ^ 24 \<le> 7555786372591432 / 2 ^ 76" by simp
  ultimately have T: "1 / 2 ^ 24 \<le> S" by (rule order_trans[rotated])
  then have S0: "0 < S" by (smt (verit) zero_less_divide_1_iff zero_less_numeral zero_less_power)
  have n0: "0 \<le> n" by (simp add: n_def)
  have "real (length ws) \<le> real (2 ^ 20)" using len by (simp only: of_nat_le_iff)
  then have n2: "n \<le> 2 ^ 20" by (simp add: n_def)
  have W0: "0 \<le> W" unfolding W_def using nonneg by (rule sum_list_fst_nonneg)
  have a0: "0 \<le> a" using W0 S0 by (simp add: a_def)
  have d0: "0 \<le> d" using n0 h by (simp add: d_def)
  have "d \<le> 2 ^ 20 * (1 / 2 ^ 200)"
    unfolding d_def using n2 n0 half_subnormal_small h by (intro mult_mono) simp_all
  then have d1: "d \<le> 1 / 2 ^ 180" by simp
  have dd0: "0 \<le> dd" using d0 S0 by (simp add: dd_def)
  have "dd \<le> d / (1 / 2 ^ 24)"
    unfolding dd_def using T d0 by (intro divide_left_mono) simp_all
  with d1 have dd1: "dd \<le> 1 / 2 ^ 156" by simp
  have c2: "n * unit_roundoff \<le> 1 / 2 ^ 33"
    using n2 by (simp add: unit_roundoff_def field_simps)
  have c1: "2 * n * unit_roundoff \<le> 1 / 2 ^ 32"
    using n2 by (simp add: unit_roundoff_def field_simps)
  \<comment> \<open>the computed sum against the exact sum\<close>
  have "1 - n * unit_roundoff \<le> (1 - unit_roundoff) ^ length ws"
    unfolding n_def using u by (intro power_lower) (simp_all add: unit_roundoff_def)
  then have "W * (1 - n * unit_roundoff) \<le> W * (1 - unit_roundoff) ^ length ws"
    using W0 by (rule mult_left_mono)
  moreover have "W * (1 - 1 / 2 ^ 33) \<le> W * (1 - n * unit_roundoff)"
    using W0 c2 by (intro mult_left_mono) simp_all
  moreover have "(0 + W) * (1 - unit_roundoff) ^ length ws - real (length ws) * half_subnormal \<le> S"
    unfolding S_def W_def using nonneg by (intro sum_loop_Binary64_lower) simp_all
  ultimately have L: "W * (1 - 1 / 2 ^ 33) - d \<le> S" by (simp add: d_def n_def)
  have "(1 + unit_roundoff) ^ length ws \<le> 1 + 2 * n * unit_roundoff"
    unfolding n_def using u c1 by (intro power_upper) (simp_all add: n_def)
  also have "\<dots> \<le> 1 + 1 / 2 ^ 32" using c1 by simp
  finally have "(W + d) * (1 + unit_roundoff) ^ length ws \<le> (W + d) * (1 + 1 / 2 ^ 32)"
    using W0 d0 by (intro mult_left_mono) simp_all
  moreover have "S \<le> (0 + W + real (length ws) * half_subnormal) * (1 + unit_roundoff) ^ length ws"
    unfolding S_def W_def using nonneg by (intro sum_loop_Binary64_upper) simp_all
  ultimately have U: "S \<le> (W + d) * (1 + 1 / 2 ^ 32)" by (simp add: d_def n_def)
  \<comment> \<open>the same, divided by the computed sum\<close>
  have W: "W = a * S" and d: "d = dd * S" using S0 by (simp_all add: a_def dd_def)
  have "(a * (1 - 1 / 2 ^ 33) - dd) * S \<le> 1 * S" using L by (simp add: W d algebra_simps)
  then have La: "a * (1 - 1 / 2 ^ 33) - dd \<le> 1" using S0 by (simp only: mult_le_cancel_right_pos)
  have "1 * S \<le> ((a + dd) * (1 + 1 / 2 ^ 32)) * S" using U by (simp add: W d algebra_simps)
  then have Ua: "1 \<le> (a + dd) * (1 + 1 / 2 ^ 32)" using S0 by (simp only: mult_le_cancel_right_pos)
  \<comment> \<open>the sum of the rounded quotients\<close>
  have "out \<le> a * (1 + unit_roundoff) + d"
    unfolding out_def a_def W_def d_def n_def using nonneg S0 by (intro quotients_upper)
  then have O1: "out \<le> a * (1 + 1 / 2 ^ 53) + d" by (simp add: unit_roundoff_def)
  have "a * (1 - unit_roundoff) - d \<le> out"
    unfolding out_def a_def W_def d_def n_def using nonneg S0 by (intro quotients_lower)
  then have O2: "a * (1 - 1 / 2 ^ 53) - d \<le> out" by (simp add: unit_roundoff_def)
  have A1: "a \<le> 1 + 1 / 2 ^ 32" using La dd1 a0 by (simp add: algebra_simps)
  have A2: "1 - 1 / 2 ^ 31 \<le> a" using Ua dd1 dd0 by (simp add: algebra_simps)
  have "out - 1 \<le> 1 / 10 ^ 9" using O1 A1 d1 a0 by (simp add: algebra_simps)
  moreover have "- (1 / 10 ^ 9) \<le> out - 1" using O2 A2 A1 d1 d0 a0 by (simp add: algebra_simps)
  ultimately have "\<bar>out - 1\<bar> \<le> 1 / 10 ^ 9" by (intro abs_leI) linarith+
  then show ?thesis by (simp only: out_def S_def)
qed

lemma sum_list_take_le:
  fixes ws :: "particle list"
  assumes "\<forall>p\<in>set ws. 0 \<le> fst p"
  shows "sum_list (map fst (take k ws)) \<le> sum_list (map fst ws)"
proof -
  have "\<forall>p\<in>set (drop k ws). 0 \<le> fst p" using assms by (meson in_set_dropD)
  then have "0 \<le> sum_list (map fst (drop k ws))" by (rule sum_list_fst_nonneg)
  moreover have "sum_list (map fst ws) =
      sum_list (map fst (take k ws)) + sum_list (map fst (drop k ws))"
    by (metis append_take_drop_id map_append sum_list_append)
  ultimately show ?thesis by linarith
qed

lemma member_le_sum_list_real:
  fixes xs :: "real list"
  shows "\<forall>x\<in>set xs. 0 \<le> x \<Longrightarrow> y \<in> set xs \<Longrightarrow> y \<le> sum_list xs"
proof (induction xs)
  case Nil
  then show ?case by simp
next
  case (Cons x xs)
  have "0 \<le> sum_list xs" using Cons.prems(1) by (intro sum_list_nonneg) simp
  with Cons show ?case by auto
qed

lemma sum_loop_Binary64_finite:
  fixes ws :: "particle list"
  assumes nonneg: "\<forall>p\<in>set ws. 0 \<le> fst p" and len: "length ws \<le> 2 ^ 20"
    and bound: "sum_list (map fst ws) \<le> 2 ^ 1023"
  shows "finite64 (sum_loop Binary64 ws 0)"
proof -
  define n where "n = real (length ws)"
  define S where "S = sum_loop Binary64 ws 0"
  define W where "W = sum_list (map fst ws)"
  define B :: real where "B = 2 ^ 1023"
  note u = unit_roundoff_pos and h = half_subnormal_pos
  have "(2::real) ^ 2 \<le> 2 ^ 1023" by (rule power_increasing) simp_all
  then have B4: "4 \<le> B" by (simp add: B_def)
  have B2: "2 * B = 2 ^ 1024" by (simp add: B_def)
  have WB: "W \<le> B" using bound by (simp add: W_def B_def)
  have n0: "0 \<le> n" by (simp add: n_def)
  have "real (length ws) \<le> real (2 ^ 20)" using len by (simp only: of_nat_le_iff)
  then have n2: "n \<le> 2 ^ 20" by (simp add: n_def)
  have W0: "0 \<le> W" unfolding W_def using nonneg by (rule sum_list_fst_nonneg)
  have S0: "0 \<le> S" unfolding S_def using nonneg by (intro sum_loop_Binary64_nonneg) simp_all
  have "n * half_subnormal \<le> 2 ^ 20 * (1 / 2 ^ 200)"
    using n2 n0 half_subnormal_small h by (intro mult_mono) simp_all
  then have d1: "n * half_subnormal \<le> 1" by simp
  have d0: "0 \<le> n * half_subnormal" using n0 h by simp
  have c1: "2 * n * unit_roundoff \<le> 1 / 2 ^ 32"
    using n2 by (simp add: unit_roundoff_def field_simps)
  have "(1 + unit_roundoff) ^ length ws \<le> 1 + 2 * n * unit_roundoff"
    unfolding n_def using u c1 by (intro power_upper) (simp_all add: n_def)
  also have "\<dots> \<le> 3 / 2" using c1 by simp
  finally have "(W + n * half_subnormal) * (1 + unit_roundoff) ^ length ws
      \<le> (W + n * half_subnormal) * (3 / 2)"
    using W0 d0 by (intro mult_left_mono) simp_all
  moreover have "S \<le> (0 + W + real (length ws) * half_subnormal) * (1 + unit_roundoff) ^ length ws"
    unfolding S_def W_def using nonneg by (intro sum_loop_Binary64_upper) simp_all
  ultimately have "S \<le> (W + n * half_subnormal) * (3 / 2)" by (simp add: n_def)
  also have "\<dots> \<le> (B + 1) * (3 / 2)" using WB d1 by simp
  also have "\<dots> < 2 * B" using B4 by simp
  finally have "S < 2 ^ 1024" by (simp only: B2)
  with S0 show ?thesis by (simp only: finite64_def S_def abs_of_nonneg)
qed

lemma normalize_finite_nonneg:
  fixes ws :: "particle list"
  assumes nonneg: "\<forall>p\<in>set ws. 0 \<le> fst p" and len: "length ws \<le> 2 ^ 20"
    and bound: "sum_list (map fst ws) \<le> 2 ^ 1023"
  shows "normalize_finite ws"
proof -
  have 1: "\<forall>k\<in>{..length ws}. finite64 (sum_loop Binary64 (take k ws) 0)"
  proof
    fix k assume "k \<in> {..length ws}"
    have a: "\<forall>p\<in>set (take k ws). 0 \<le> fst p" using nonneg by (meson in_set_takeD)
    have b: "length (take k ws) \<le> 2 ^ 20" using len by simp
    have c: "sum_list (map fst (take k ws)) \<le> 2 ^ 1023"
      using sum_list_take_le[OF nonneg, of k] bound by linarith
    from a b c show "finite64 (sum_loop Binary64 (take k ws) 0)"
      by (rule sum_loop_Binary64_finite)
  qed
  have 2: "\<forall>p\<in>set ws. finite64 (fl Binary64 (fst p / sum_loop Binary64 ws 0))"
    if high: "fl Binary64 (1 / 10 ^ 7) \<le> sum_loop Binary64 ws 0"
  proof
    fix p assume p: "p \<in> set ws"
    define S where "S = sum_loop Binary64 ws 0"
    define qs where "qs = map (\<lambda>p. binary64 (fst p / S)) ws"
    have S0: "0 \<le> S" unfolding S_def using nonneg by (intro sum_loop_Binary64_nonneg) simp_all
    have nn: "\<forall>x\<in>set qs. 0 \<le> x"
      unfolding qs_def using nonneg S0 by (auto intro!: binary64_nonneg)
    have "binary64 (fst p / S) \<in> set qs" unfolding qs_def using p by auto
    from member_le_sum_list_real[OF nn this]
    have le: "binary64 (fst p / S) \<le> sum_list qs" .
    have "\<bar>sum_list qs - 1\<bar> \<le> 1 / 10 ^ 9"
      unfolding qs_def S_def using nonneg len high
      by (intro normalize_weights_Binary64_high_sum_total) simp_all
    then have "sum_list qs - 1 \<le> 1 / 10 ^ 9" by (rule order_trans[OF abs_ge_self])
    then have "sum_list qs \<le> 2" by simp
    with le have le2: "binary64 (fst p / S) \<le> 2" by linarith
    have "(2::real) ^ 1 \<le> 2 ^ 1023" by (rule power_increasing) simp_all
    then have "(2::real) < 2 ^ 1024" by simp
    with le2 have "binary64 (fst p / S) < 2 ^ 1024" by linarith
    moreover have "0 \<le> binary64 (fst p / S)" using nn \<open>binary64 (fst p / S) \<in> set qs\<close> by blast
    ultimately show "finite64 (fl Binary64 (fst p / sum_loop Binary64 ws 0))"
      by (simp add: finite64_def S_def)
  qed
  from 1 2 show ?thesis by (simp only: normalize_finite_def) blast
qed

lemma sum_loop_absorbs: "sum_loop Binary64 (replicate n (1 / 2 ^ 54, s)) 1 = 1"
proof (induction n)
  case 0
  show ?case by (simp only: replicate.simps sum_loop.simps)
next
  case (Suc n)
  then show ?case
    by (simp only: replicate.simps sum_loop.simps fst_conv fadd_def fl.simps b64_absorb)
qed

lemma normalize_weights_absorbs_small_weights:
  "normalize_weights Binary64 ((1, s) # replicate n (1 / 2 ^ 54, s)) =
     Inr ((1, s) # replicate n (1 / 2 ^ 54, s))"
  "sum_list (map fst ((1, s) # replicate n (1 / 2 ^ 54, s))) = 1 + real n / 2 ^ 54"
proof -
  let ?ws = "(1, s) # replicate n (1 / 2 ^ 54, s)"
  have S: "sum_loop Binary64 ?ws 0 = 1"
    by (simp only: sum_loop.simps fst_conv fadd_def fl.simps add_0 b64_one sum_loop_absorbs)
  have "fl Binary64 (1 / 10 ^ 7) \<le> sum_loop Binary64 ?ws 0"
    unfolding S by (simp only: fl.simps binary64_literal_1e7) simp
  from normalize_weights_high_sum[OF this] b64_small
  show "normalize_weights Binary64 ?ws = Inr ?ws"
    unfolding S by (simp add: b64_one)
  show "sum_list (map fst ?ws) = 1 + real n / 2 ^ 54"
    by (simp add: sum_list_replicate)
qed

lemma likelihood_den_distance: "fmul a 2 (fsquare a (fl a (1 / 5))) \<noteq> 0"
proof (cases a)
  case Exact
  then show ?thesis by (simp add: fmul_def fsquare_def)
next
  case Binary64
  have "fmul Binary64 2 (fsquare Binary64 (fl Binary64 (1 / 5))) = 1441151880758559 / 18014398509481984"
    by (simp only: fmul_def fsquare_def fl.simps b64_std_distance b64_std_distance_sq
        b64_std_distance_den)
  with Binary64 show ?thesis by simp
qed

lemma likelihood_den_angle: "fmul a 2 (fsquare a (fl a (1 / 20))) \<noteq> 0"
proof (cases a)
  case Exact
  then show ?thesis by (simp add: fmul_def fsquare_def)
next
  case Binary64
  have "fmul Binary64 2 (fsquare Binary64 (fl Binary64 (1 / 20))) = 1441151880758559 / 288230376151711744"
    by (simp only: fmul_def fsquare_def fl.simps b64_std_angle b64_std_angle_sq
        b64_std_angle_den)
  with Binary64 show ?thesis by simp
qed

section \<open>Facts about the triggers\<close>

lemma squares_loop_Exact: "squares_loop Exact ps acc = acc + (\<Sum>p\<leftarrow>ps. fst p * fst p)"
  by (induction ps arbitrary: acc) (simp_all add: fadd_def fsquare_def)

lemma max_loop_Max: "max_loop ps m = Max (insert m (fst ` set ps))"
proof (induction ps arbitrary: m)
  case Nil
  then show ?case by simp
next
  case (Cons p ps)
  show ?case
  proof (cases "ps = []")
    case True
    then show ?thesis by simp
  next
    case False
    then have "fst ` set ps \<noteq> {}" by simp
    then show ?thesis using Cons by (simp add: max.assoc)
  qed
qed

lemma sum_list_uniform:
  "(\<forall>p\<in>set ps. fst p = c) \<Longrightarrow> (\<Sum>p\<leftarrow>ps. fst p * fst p) = real (length ps) * (c * c)"
  by (induction ps) (simp_all add: distrib_right)

section \<open>Facts about searching and resampling\<close>

declare naive_search_from.simps [simp del]

lemma naive_search_from_raises:
  "(\<forall>i. m \<le> i \<and> i < length cl \<longrightarrow> cl ! i < x) \<Longrightarrow> naive_search_from cl x m = Inl IndexError"
proof (induction cl x m rule: naive_search_from.induct)
  case (1 cl x m)
  show ?case
  proof (cases "length cl \<le> m")
    case True
    then show ?thesis by (simp add: naive_search_from.simps)
  next
    case False
    with "1.prems" have lt: "cl ! m < x" by simp
    have "naive_search_from cl x (Suc m) = Inl IndexError"
      using "1.IH" False lt "1.prems" by simp
    with False lt show ?thesis by (subst naive_search_from.simps) simp
  qed
qed

lemma naive_search_from_returns:
  "m \<le> i \<Longrightarrow> i < length cl \<Longrightarrow> x \<le> cl ! i \<Longrightarrow>
   \<exists>k. naive_search_from cl x m = Inr k \<and> m \<le> k \<and> k \<le> i \<and> x \<le> cl ! k \<and> (\<forall>j. m \<le> j \<and> j < k \<longrightarrow> cl ! j < x)"
proof (induction cl x m rule: naive_search_from.induct)
  case (1 cl x m)
  from "1.prems" have inb: "\<not> length cl \<le> m" by simp
  show ?case
  proof (cases "cl ! m < x")
    case True
    with "1.prems" have "m \<noteq> i" by auto
    with "1.prems" have "Suc m \<le> i" by simp
    from "1.IH"[OF inb True this "1.prems"(2,3)]
    obtain k where k: "naive_search_from cl x (Suc m) = Inr k" "Suc m \<le> k" "k \<le> i" "x \<le> cl ! k"
      "\<forall>j. Suc m \<le> j \<and> j < k \<longrightarrow> cl ! j < x" by blast
    have "\<forall>j. m \<le> j \<and> j < k \<longrightarrow> cl ! j < x"
    proof (intro allI impI)
      fix j assume "m \<le> j \<and> j < k"
      then show "cl ! j < x" using k(5) True by (cases "j = m") auto
    qed
    moreover have "naive_search_from cl x m = Inr k"
      using inb True k(1) by (subst naive_search_from.simps) simp
    ultimately show ?thesis using k by auto
  next
    case False
    then have "naive_search_from cl x m = Inr m"
      using inb by (subst naive_search_from.simps) simp
    with False "1.prems" show ?thesis by auto
  qed
qed

lemma length_cumsum_from [simp]: "length (cumsum_from a acc ws) = length ws"
  by (induction ws arbitrary: acc) simp_all

lemma length_cumsum [simp]: "length (cumsum a ws) = length ws"
  by (cases ws) simp_all

lemma naive_search_covered:
  "covered Q u \<Longrightarrow> \<exists>m. naive_search Q u = Inr m \<and> m < length Q \<and> u \<le> Q ! m \<and> (\<forall>j<m. Q ! j < u)"
proof -
  assume "covered Q u"
  then obtain i where i: "i < length Q" "u \<le> Q ! i" by (auto simp: covered_def)
  from naive_search_from_returns[of 0 i Q u] i
  obtain k where "naive_search_from Q u 0 = Inr k" "k \<le> i" "u \<le> Q ! k" "\<forall>j. 0 \<le> j \<and> j < k \<longrightarrow> Q ! j < u"
    by blast
  with i show ?thesis by (auto simp: naive_search_def)
qed

lemma naive_search_not_covered: "\<not> covered Q u \<Longrightarrow> naive_search Q u = Inl IndexError"
  unfolding naive_search_def covered_def
  by (rule naive_search_from_raises) (auto simp: not_le)

lemma multinomial_loop_returns:
  assumes "N \<noteq> 0" "length samples = length Q"
  shows "(\<forall>j. k \<le> j \<and> j < k + todo \<longrightarrow> covered Q (multinomial_draw a r j)) \<Longrightarrow>
    \<exists>out. multinomial_loop a r samples N Q k todo acc = Inr (acc @ out) \<and> length out = todo \<and>
      (\<forall>p\<in>set out. fst p = fl a (1 / of_int N) \<and> snd p \<in> snd ` set samples)"
proof (induction todo arbitrary: k acc)
  case 0
  then show ?case by simp
next
  case (Suc todo)
  let ?u = "uniform r k (fl a (1 / 10 ^ 10)) 1"
  have "covered Q ?u" using Suc.prems[rule_format, of k] by (simp add: multinomial_draw_def)
  then obtain m where m: "naive_search Q ?u = Inr m" "m < length Q"
    using naive_search_covered by blast
  let ?p = "(fl a (1 / of_int N), snd (samples ! m))"
  have "\<forall>j. Suc k \<le> j \<and> j < Suc k + todo \<longrightarrow> covered Q (multinomial_draw a r j)"
    using Suc.prems by simp
  from Suc.IH[OF this, of "acc @ [?p]"]
  obtain out where out: "multinomial_loop a r samples N Q (Suc k) todo (acc @ [?p]) = Inr ((acc @ [?p]) @ out)"
    "length out = todo" "\<forall>p\<in>set out. fst p = fl a (1 / of_int N) \<and> snd p \<in> snd ` set samples"
    by blast
  have step: "multinomial_loop a r samples N Q k (Suc todo) acc = Inr (acc @ (?p # out))"
    using m(1) out(1) assms(1) by (simp add: Let_def)
  have "snd (samples ! m) \<in> snd ` set samples"
    using m(2) assms(2) by (metis imageI nth_mem)
  with out step show ?case
    by (intro exI[of _ "?p # out"]) auto
qed

lemma multinomial_loop_raises:
  assumes "N \<noteq> 0"
  shows "(\<exists>j. k \<le> j \<and> j < k + todo \<and> \<not> covered Q (multinomial_draw a r j)) \<Longrightarrow>
    multinomial_loop a r samples N Q k todo acc = Inl IndexError"
proof (induction todo arbitrary: k acc)
  case 0
  then show ?case by auto
next
  case (Suc todo)
  let ?u = "uniform r k (fl a (1 / 10 ^ 10)) 1"
  show ?case
  proof (cases "covered Q ?u")
    case False
    then show ?thesis by (simp add: naive_search_not_covered Let_def)
  next
    case True
    then obtain m where m: "naive_search Q ?u = Inr m" using naive_search_covered by blast
    from Suc.prems True obtain j where "Suc k \<le> j" "j < Suc k + todo" "\<not> covered Q (multinomial_draw a r j)"
      by (metis multinomial_draw_def Suc_leI add_Suc_right add_Suc le_neq_implies_less)
    then have "\<exists>j. Suc k \<le> j \<and> j < Suc k + todo \<and> \<not> covered Q (multinomial_draw a r j)" by blast
    from Suc.IH[OF this] show ?thesis using m assms by (simp add: Let_def)
  qed
qed

lemma stratified_loop_returns:
  assumes "N \<noteq> 0" "length samples = length Q"
  shows "(\<forall>j. k \<le> j \<and> j < k + todo \<longrightarrow> covered Q (stratified_draw a r N j)) \<Longrightarrow>
    \<exists>out. stratified_loop a r samples N Q k todo acc = Inr (acc @ out) \<and> length out = todo \<and>
      (\<forall>p\<in>set out. fst p = fl a (1 / of_int N) \<and> snd p \<in> snd ` set samples)"
proof (induction todo arbitrary: k acc)
  case 0
  then show ?case by simp
next
  case (Suc todo)
  let ?u = "stratified_draw a r N k"
  have "covered Q ?u" using Suc.prems[rule_format, of k] by simp
  then obtain m where m: "naive_search Q ?u = Inr m" "m < length Q"
    using naive_search_covered by blast
  let ?p = "(fl a (1 / of_int N), snd (samples ! m))"
  have "\<forall>j. Suc k \<le> j \<and> j < Suc k + todo \<longrightarrow> covered Q (stratified_draw a r N j)"
    using Suc.prems by simp
  from Suc.IH[OF this, of "acc @ [?p]"]
  obtain out where out: "stratified_loop a r samples N Q (Suc k) todo (acc @ [?p]) = Inr ((acc @ [?p]) @ out)"
    "length out = todo" "\<forall>p\<in>set out. fst p = fl a (1 / of_int N) \<and> snd p \<in> snd ` set samples"
    by blast
  have step: "stratified_loop a r samples N Q k (Suc todo) acc = Inr (acc @ (?p # out))"
    using m(1) out(1) assms(1) by (simp add: Let_def stratified_draw_def)
  have "snd (samples ! m) \<in> snd ` set samples"
    using m(2) assms(2) by (metis imageI nth_mem)
  with out step show ?case
    by (intro exI[of _ "?p # out"]) auto
qed

lemma stratified_loop_raises:
  assumes "N \<noteq> 0"
  shows "(\<exists>j. k \<le> j \<and> j < k + todo \<and> \<not> covered Q (stratified_draw a r N j)) \<Longrightarrow>
    stratified_loop a r samples N Q k todo acc = Inl IndexError"
proof (induction todo arbitrary: k acc)
  case 0
  then show ?case by auto
next
  case (Suc todo)
  let ?u = "stratified_draw a r N k"
  show ?case
  proof (cases "covered Q ?u")
    case False
    then show ?thesis using assms by (simp add: naive_search_not_covered Let_def stratified_draw_def)
  next
    case True
    then obtain m where m: "naive_search Q ?u = Inr m" using naive_search_covered by blast
    from Suc.prems True obtain j where "Suc k \<le> j" "j < Suc k + todo" "\<not> covered Q (stratified_draw a r N j)"
      by (metis Suc_leI add_Suc_right add_Suc le_neq_implies_less)
    then have "\<exists>j. Suc k \<le> j \<and> j < Suc k + todo \<and> \<not> covered Q (stratified_draw a r N j)" by blast
    from Suc.IH[OF this] show ?thesis using m assms by (simp add: Let_def stratified_draw_def)
  qed
qed

lemma multinomial_raises_iff:
  assumes "1 \<le> N"
  shows "(multinomial a r samples N = Inl IndexError) =
     (\<exists>k<nat N. \<not> covered (cumsum a (map fst samples)) (multinomial_draw a r k))"
proof (cases "\<exists>k<nat N. \<not> covered (cumsum a (map fst samples)) (multinomial_draw a r k)")
  case True
  then have "\<exists>j. 0 \<le> j \<and> j < 0 + nat N \<and> \<not> covered (cumsum a (map fst samples)) (multinomial_draw a r j)"
    by auto
  from multinomial_loop_raises[OF _ this, of N samples "[]"] assms True
  show ?thesis by (simp add: multinomial_def)
next
  case False
  then have "\<forall>j. 0 \<le> j \<and> j < 0 + nat N \<longrightarrow> covered (cumsum a (map fst samples)) (multinomial_draw a r j)"
    by auto
  from multinomial_loop_returns[OF _ _ this, of N samples "[]"] assms False
  show ?thesis by (auto simp: multinomial_def)
qed

lemma stratified_raises_iff:
  assumes "1 \<le> N"
  shows "(stratified a r samples N = Inl IndexError) =
     (\<exists>k<nat N. \<not> covered (cumsum a (map fst samples)) (stratified_draw a r N k))"
proof (cases "\<exists>k<nat N. \<not> covered (cumsum a (map fst samples)) (stratified_draw a r N k)")
  case True
  then have "\<exists>j. 0 \<le> j \<and> j < 0 + nat N \<and> \<not> covered (cumsum a (map fst samples)) (stratified_draw a r N j)"
    by auto
  from stratified_loop_raises[OF _ this, of samples "[]"] assms True
  show ?thesis by (simp add: stratified_def)
next
  case False
  then have "\<forall>j. 0 \<le> j \<and> j < 0 + nat N \<longrightarrow> covered (cumsum a (map fst samples)) (stratified_draw a r N j)"
    by auto
  from stratified_loop_returns[OF _ _ this, of samples "[]"] assms False
  show ?thesis by (auto simp: stratified_def)
qed

lemma cumsum_from_Exact_nth:
  "i < length ws \<Longrightarrow> cumsum_from Exact acc ws ! i = acc + sum_list (take (Suc i) ws)"
proof (induction ws arbitrary: acc i)
  case Nil
  then show ?case by simp
next
  case (Cons w ws)
  then show ?case by (cases i) (simp_all add: fadd_def)
qed

lemma cumsum_Exact_nth:
  "i < length ws \<Longrightarrow> cumsum Exact ws ! i = sum_list (take (Suc i) ws)"
proof (cases ws)
  case Nil
  then show "i < length ws \<Longrightarrow> ?thesis" by simp
next
  case (Cons w ws')
  then show "i < length ws \<Longrightarrow> ?thesis"
    by (cases i) (simp_all add: cumsum_from_Exact_nth)
qed

lemma cumsum_Exact_last:
  "ws \<noteq> [] \<Longrightarrow> last (cumsum Exact ws) = sum_list ws"
proof -
  assume ne: "ws \<noteq> []"
  then have "cumsum Exact ws \<noteq> []" by (cases ws) simp_all
  then have "last (cumsum Exact ws) = cumsum Exact ws ! (length ws - 1)"
    by (simp add: last_conv_nth)
  also have "\<dots> = sum_list (take (Suc (length ws - 1)) ws)"
    using ne by (intro cumsum_Exact_nth) simp
  finally show ?thesis using ne by simp
qed

lemma covered_last:
  assumes "Q \<noteq> []" "u \<le> last Q"
  shows "covered Q u"
  unfolding covered_def using assms
  by (intro exI[of _ "length Q - 1"]) (simp add: last_conv_nth)

lemma stratified_draw_Binary64_le_one:
  assumes "1 \<le> N" "N \<le> 2 ^ 53" "n < nat N"
    and "uniform r n (fl Binary64 (1 / 10 ^ 10)) (fl Binary64 (1 / of_int N)) < fl Binary64 (1 / of_int N)"
  shows "stratified_draw Binary64 r N n \<le> 1"
proof -
  define u0 where "u0 = uniform r n (binary64 (1 / 10 ^ 10)) (binary64 (1 / of_int N))"
  define eps :: real where "eps = 1 / 2 ^ 53"
  have Npos: "0 < (of_int N :: real)" using assms(1) by simp
  have Nle: "(of_int N :: real) \<le> 2 ^ 53"
    using assms(2) by (metis of_int_le_iff of_int_numeral of_int_power)
  have small: "(2::real) powi (- 1022) \<le> 1 / 2 ^ 53"
    by (simp add: power_int_minus field_simps)
  have inv: "1 / 2 ^ 53 \<le> 1 / (of_int N :: real)"
    using Npos Nle by (simp add: frac_le)
  have h: "binary64 (1 / of_int N) \<le> 1 / of_int N * (1 + eps)"
    unfolding eps_def using small inv by (intro binary64_relative_upper) linarith
  have nN: "real n + 1 \<le> of_int N" using assms(3) by linarith
  have "int n < N" using assms(3) by linarith
  with assms(2) have "int n \<le> int (2 ^ 53)" by simp
  then have "n \<le> 2 ^ 53" by (simp only: of_nat_le_iff)
  then have fn: "binary64 (real n) = real n" by (rule binary64_nat)
  have o: "binary64 (real n / of_int N) \<le> real n / of_int N * (1 + eps)"
  proof (cases "n = 0")
    case True
    then show ?thesis by simp
  next
    case False
    then have "1 / (of_int N :: real) \<le> real n / of_int N"
      using Npos by (simp add: divide_right_mono)
    with small inv show ?thesis unfolding eps_def
      by (intro binary64_relative_upper) linarith
  qed
  have "u0 < binary64 (1 / of_int N)" using assms(4) by (simp add: u0_def)
  with h o have "u0 + binary64 (real n / of_int N) < (1 / of_int N + real n / of_int N) * (1 + eps)"
    by (simp add: algebra_simps)
  also have "(1 / of_int N + real n / of_int N) = (real n + 1) / of_int N"
    by (simp add: add_divide_distrib)
  also have "(real n + 1) / of_int N * (1 + eps) \<le> 1 * (1 + eps)"
    using nN Npos by (intro mult_right_mono) (simp_all add: eps_def)
  finally have "u0 + binary64 (real n / of_int N) < 1 + 1 / 2 ^ 53" by (simp add: eps_def)
  from binary64_le_one[OF this] show ?thesis
    by (simp add: stratified_draw_def fadd_def fmul_def fn u0_def)
qed

lemma stratified_draw_le_one:
  assumes "1 \<le> N" "a = Binary64 \<longrightarrow> N \<le> 2 ^ 53" "n < nat N"
    and "uniform r n (fl a (1 / 10 ^ 10)) (fl a (1 / of_int N)) < fl a (1 / of_int N)"
  shows "stratified_draw a r N n \<le> 1"
proof (cases a)
  case Exact
  have "real n + 1 \<le> of_int N" using assms(3) by linarith
  moreover have "0 < (of_int N :: real)" using assms(1) by simp
  ultimately have "real n / of_int N + 1 / of_int N \<le> 1"
    by (simp add: field_simps)
  with assms(4) Exact show ?thesis
    by (simp add: stratified_draw_def fadd_def fmul_def)
next
  case Binary64
  with assms have "N \<le> 2 ^ 53"
    and "uniform r n (fl Binary64 (1 / 10 ^ 10)) (fl Binary64 (1 / of_int N))
           < fl Binary64 (1 / of_int N)" by simp_all
  from stratified_draw_Binary64_le_one[OF assms(1) this(1) assms(3) this(2)] Binary64
  show ?thesis by simp
qed

lemma covered_list_ex: "covered Q u = list_ex (\<lambda>q. u \<le> q) Q"
  by (simp add: covered_def list_ex_length)

lemma multinomial_returns:
  assumes "1 \<le> N"
    and "\<forall>k<nat N. covered (cumsum a (map fst samples)) (multinomial_draw a r k)"
  shows "\<exists>out. multinomial a r samples N = Inr out \<and> length out = nat N \<and>
      (\<forall>p\<in>set out. fst p = fl a (1 / of_int N) \<and> snd p \<in> snd ` set samples)"
proof -
  have N0: "N \<noteq> 0" using assms(1) by simp
  have len: "length samples = length (cumsum a (map fst samples))" by simp
  have "\<forall>j. 0 \<le> j \<and> j < 0 + nat N \<longrightarrow>
      covered (cumsum a (map fst samples)) (multinomial_draw a r j)"
    using assms(2) by simp
  from multinomial_loop_returns[OF N0 len this, of "[]"]
  show ?thesis by (simp add: multinomial_def)
qed

lemma stratified_returns:
  assumes "1 \<le> N"
    and "\<forall>k<nat N. covered (cumsum a (map fst samples)) (stratified_draw a r N k)"
  shows "\<exists>out. stratified a r samples N = Inr out \<and> length out = nat N \<and>
      (\<forall>p\<in>set out. fst p = fl a (1 / of_int N) \<and> snd p \<in> snd ` set samples)"
proof -
  have N0: "N \<noteq> 0" using assms(1) by simp
  have len: "length samples = length (cumsum a (map fst samples))" by simp
  have "\<forall>j. 0 \<le> j \<and> j < 0 + nat N \<longrightarrow>
      covered (cumsum a (map fst samples)) (stratified_draw a r N j)"
    using assms(2) by simp
  from stratified_loop_returns[OF N0 len this, of "[]"]
  show ?thesis by (simp add: stratified_def)
qed

section \<open>Facts about the update cycle\<close>

lemma validate_state_process_noise [simp]:
  "validate_state a (f\<lparr>process_noise := pn\<rparr>) s = validate_state a f s"
  by (simp add: validate_state_def)

lemma propagate_sample_Q_process_noise [simp]:
  "propagate_sample_Q a (f\<lparr>process_noise := pn\<rparr>) r i s d t Q = propagate_sample_Q a f r i s d t Q"
  by (simp add: propagate_sample_Q_def)

lemma update_loop_process_noise [simp]:
  "update_loop a (f\<lparr>process_noise := pn\<rparr>) r d t meas lms i ps acc =
   update_loop a f r d t meas lms i ps acc"
  by (induction ps arbitrary: i acc) simp_all

lemma update_process_noise:
  "update a r (f\<lparr>process_noise := pn\<rparr>) fwd ang meas lms =
     map_sum id (\<lambda>g. g\<lparr>process_noise := pn\<rparr>) (update a r f fwd ang meas lms)"
  by (simp add: update_def bind_def split: option.splits sum.splits)

lemma propagate_sample_Q_cong:
  assumes "\<forall>i mean. multivariate_normal r i mean (fixed_covariance a) =
                    multivariate_normal r' i mean (fixed_covariance a)"
  shows "propagate_sample_Q a f r i s d t (fl a (7 / 100), fl a (7 / 100), fl a (1 / 10)) =
         propagate_sample_Q a f r' i s d t (fl a (7 / 100), fl a (7 / 100), fl a (1 / 10))"
  using assms by (cases s) (simp add: propagate_sample_Q_def fixed_covariance_def Let_def)

lemma update_loop_cong:
  assumes "\<forall>i mean. multivariate_normal r i mean (fixed_covariance a) =
                    multivariate_normal r' i mean (fixed_covariance a)"
  shows "update_loop a f r d t meas lms i ps acc = update_loop a f r' d t meas lms i ps acc"
proof (induction ps arbitrary: i acc)
  case Nil
  then show ?case by simp
next
  case (Cons p ps)
  then show ?case by (simp add: propagate_sample_Q_cong[OF assms])
qed

lemma multinomial_loop_cong:
  "uniform r = uniform r' \<Longrightarrow>
   multinomial_loop a r samples N Q k todo acc = multinomial_loop a r' samples N Q k todo acc"
  by (induction todo arbitrary: k acc) simp_all

lemma stratified_loop_cong:
  "uniform r = uniform r' \<Longrightarrow>
   stratified_loop a r samples N Q k todo acc = stratified_loop a r' samples N Q k todo acc"
  by (induction todo arbitrary: k acc) simp_all

lemma resample_cong:
  "uniform r = uniform r' \<Longrightarrow> resample a r samples N alg = resample a r' samples N alg"
  by (simp add: resample_def multinomial_def stratified_def multinomial_loop_cong[of r r']
      stratified_loop_cong[of r r'])

lemma update_cong:
  assumes "\<forall>i mean. multivariate_normal r i mean (fixed_covariance a) =
                    multivariate_normal r' i mean (fixed_covariance a)"
    and "uniform r = uniform r'"
  shows "update a r f d t meas lms = update a r' f d t meas lms"
proof -
  have 1: "\<And>ps. update_loop a f r d t meas lms 0 ps [] = update_loop a f r' d t meas lms 0 ps []"
    by (rule update_loop_cong[OF assms(1)])
  have 2: "\<And>ps N alg. resample a r ps N alg = resample a r' ps N alg"
    by (rule resample_cong[OF assms(2)])
  show ?thesis by (simp only: update_def 1 2)
qed

section \<open>The claims\<close>

text \<open>
  Claim C1, as the code has it. \<open>ParticleFilterMWR.needs_resampling\<close> has no guard for a
  zero maximum weight. When no weight is positive (every weight is \<open>0\<close>, or there is no
  particle) it divides \<open>1.0\<close> by the integer \<open>0\<close> and raises \<open>ZeroDivisionError\<close>; when
  some weight is positive it returns whether the reciprocal of the largest weight is below
  the threshold.
\<close>

theorem MWR_unguarded:
  "MWR_needs_resampling a threshold ps =
     (if \<forall>p\<in>set ps. fst p \<le> 0 then Inl ZeroDivisionError
      else Inr (fl a (1 / Max (fst ` set ps)) < threshold))"
proof (cases "\<forall>p\<in>set ps. fst p \<le> 0")
  case True
  then have "Max (insert 0 (fst ` set ps)) = 0"
    by (intro Max_eqI) auto
  with True show ?thesis
    by (simp add: MWR_needs_resampling_def max_loop_Max py_div_def bind_def)
next
  case False
  then obtain p where p: "p \<in> set ps" "0 < fst p" by (auto simp: not_le)
  then have ne: "fst ` set ps \<noteq> {}" by auto
  have "fst p \<le> Max (fst ` set ps)" using p by simp
  with p have pos: "0 < Max (fst ` set ps)" by linarith
  have "Max (insert 0 (fst ` set ps)) = max 0 (Max (fst ` set ps))"
    using ne by simp
  also have "\<dots> = Max (fst ` set ps)" using pos by simp
  finally show ?thesis using False pos
    by (simp add: MWR_needs_resampling_def max_loop_Max py_div_def bind_def)
qed

theorem MWR_unguarded_witness:
  "MWR_needs_resampling Binary64 200 [(1 / 4, (0, 0, 0)), (1 / 2, (1, 1, 1))] = Inr True
   \<and> MWR_needs_resampling Binary64 200 [] = Inl ZeroDivisionError"
proof -
  have "Max (fst ` set [(1 / 4 :: real, (0 :: real, 0 :: real, 0 :: real)), (1 / 2, (1, 1, 1))]) = 1 / 2"
    by simp
  then have "MWR_needs_resampling Binary64 200 [(1 / 4, (0, 0, 0)), (1 / 2, (1, 1, 1))] =
      Inr (binary64 (1 / (1 / 2)) < 200)"
    using MWR_unguarded[of Binary64 200 "[(1 / 4, (0, 0, 0)), (1 / 2, (1, 1, 1))]"]
    by (simp del: divide_divide_eq_right)
  then have "MWR_needs_resampling Binary64 200 [(1 / 4, (0, 0, 0)), (1 / 2, (1, 1, 1))] = Inr True"
    by (simp only: b64_two) simp
  moreover have "MWR_needs_resampling Binary64 200 [] = Inl ZeroDivisionError"
    using MWR_unguarded[of Binary64 200 "[]"] by simp
  ultimately show ?thesis by simp
qed

text \<open>
  The claim says that a set whose weights are all \<open>0\<close> makes the trigger return true.
  It raises instead.
\<close>

theorem MWR_all_zero_raises:
  "MWR_needs_resampling Binary64 200 [(0, (1, 2, 3)), (0, (4, 5, 6))] = Inl ZeroDivisionError"
  by (simp add: MWR_needs_resampling_def py_div_def bind_def)



text \<open>
  Claim C3, as the code has it. In exact arithmetic the weights that \<open>normalize_weights\<close>
  returns for a non-empty list with positive weight sum add up to \<open>1\<close> exactly, and the
  states are unchanged. In binary64 they add up to \<open>1\<close> within \<open>1e-9\<close> (the returned weights
  added exactly), the states unchanged, for every non-empty list of at most \<open>2\<^sup>2\<^sup>0\<close>
  particles whose weights are not negative and add up to at most \<open>2\<^sup>1\<^sup>0\<^sup>2\<^sup>3\<close>; for such a
  list no sum and no quotient of the computation overflows. In either arithmetic, when the
  computed sum is at least \<open>1e-7\<close> (and, in binary64, nothing overflows) every returned
  weight is the quotient of the given weight and the computed sum.
\<close>

theorem normalize_weights_sums_to_one:
  "(ws \<noteq> [] \<and> 0 < sum_list (map fst ws) \<longrightarrow>
      (\<exists>out. normalize_weights Exact ws = Inr out \<and>
         sum_list (map fst out) = 1 \<and> \<bar>sum_list (map fst out) - 1\<bar> \<le> 1 / 10 ^ 9 \<and>
         map snd out = map snd ws))
   \<and> (ws \<noteq> [] \<and> (\<forall>p\<in>set ws. 0 \<le> fst p) \<and> length ws \<le> 2 ^ 20 \<and>
       sum_list (map fst ws) \<le> 2 ^ 1023 \<longrightarrow>
      normalize_finite ws \<and>
      (\<exists>out. normalize_weights Binary64 ws = Inr out \<and>
         \<bar>sum_list (map fst out) - 1\<bar> \<le> 1 / 10 ^ 9 \<and> map snd out = map snd ws))
   \<and> (fl a (1 / 10 ^ 7) \<le> sum_loop a ws 0 \<and> (a = Binary64 \<longrightarrow> normalize_finite ws) \<longrightarrow>
        normalize_weights a ws = Inr (map (\<lambda>p. (fl a (fst p / sum_loop a ws 0), snd p)) ws))"
proof (intro conjI impI)
  assume h: "ws \<noteq> [] \<and> 0 < sum_list (map fst ws)"
  let ?S = "sum_list (map fst ws)"
  show "\<exists>out. normalize_weights Exact ws = Inr out \<and>
         sum_list (map fst out) = 1 \<and> \<bar>sum_list (map fst out) - 1\<bar> \<le> 1 / 10 ^ 9 \<and>
         map snd out = map snd ws"
  proof (cases "?S < 1 / 10 ^ 7")
    case True
    then have "sum_loop Exact ws 0 < fl Exact (1 / 10 ^ 7)" by (simp add: sum_loop_Exact)
    from normalize_weights_low_sum[OF _ this] h
    have eq: "normalize_weights Exact ws = Inr (map (\<lambda>p. (1 / real (length ws), snd p)) ws)"
      by simp
    have "sum_list (map fst (map (\<lambda>p. (1 / real (length ws), snd p)) ws)) = 1"
      using h by (simp add: o_def sum_list_triv)
    with eq show ?thesis by (simp add: o_def)
  next
    case False
    then have "fl Exact (1 / 10 ^ 7) \<le> sum_loop Exact ws 0" by (simp add: sum_loop_Exact)
    from normalize_weights_high_sum[OF this]
    have eq: "normalize_weights Exact ws = Inr (map (\<lambda>p. (fst p / ?S, snd p)) ws)"
      by (simp add: sum_loop_Exact)
    have "sum_list (map fst (map (\<lambda>p. (fst p / ?S, snd p)) ws)) = 1"
      using h by (simp add: o_def sum_list_const_div)
    with eq show ?thesis by (simp add: o_def)
  qed
next
  assume h: "ws \<noteq> [] \<and> (\<forall>p\<in>set ws. 0 \<le> fst p) \<and> length ws \<le> 2 ^ 20 \<and>
       sum_list (map fst ws) \<le> 2 ^ 1023"
  then show "normalize_finite ws" by (intro normalize_finite_nonneg) simp_all
  show "\<exists>out. normalize_weights Binary64 ws = Inr out \<and>
         \<bar>sum_list (map fst out) - 1\<bar> \<le> 1 / 10 ^ 9 \<and> map snd out = map snd ws"
  proof (cases "sum_loop Binary64 ws 0 < fl Binary64 (1 / 10 ^ 7)")
    case True
    from normalize_weights_low_sum[OF _ True] h
    have eq: "normalize_weights Binary64 ws =
        Inr (map (\<lambda>p. (binary64 (1 / real (length ws)), snd p)) ws)"
      by simp
    moreover have "\<bar>sum_list (map fst (map (\<lambda>p. (binary64 (1 / real (length ws)), snd p)) ws)) - 1\<bar>
        \<le> 1 / 10 ^ 9"
      using h by (intro normalize_weights_Binary64_low_sum_total) simp_all
    ultimately show ?thesis by (simp add: o_def)
  next
    case False
    then have hi: "fl Binary64 (1 / 10 ^ 7) \<le> sum_loop Binary64 ws 0" by simp
    from normalize_weights_high_sum[OF this]
    have eq: "normalize_weights Binary64 ws =
        Inr (map (\<lambda>p. (binary64 (fst p / sum_loop Binary64 ws 0), snd p)) ws)"
      by simp
    moreover have "\<bar>sum_list (map (\<lambda>p. binary64 (fst p / sum_loop Binary64 ws 0)) ws) - 1\<bar>
        \<le> 1 / 10 ^ 9"
      using h hi by (intro normalize_weights_Binary64_high_sum_total) simp_all
    ultimately show ?thesis by (simp add: o_def)
  qed
next
  assume "fl a (1 / 10 ^ 7) \<le> sum_loop a ws 0 \<and> (a = Binary64 \<longrightarrow> normalize_finite ws)"
  then have "fl a (1 / 10 ^ 7) \<le> sum_loop a ws 0" by simp
  then show "normalize_weights a ws = Inr (map (\<lambda>p. (fl a (fst p / sum_loop a ws 0), snd p)) ws)"
    by (rule normalize_weights_high_sum)
qed

theorem normalize_weights_sums_to_one_witness:
  "[(1 / 10, (1, 2, 3)), (3 / 10, (4, 5, 6))] \<noteq> ([] :: particle list)
   \<and> 0 < sum_list (map fst [(1 / 10 :: real, (1 :: real, 2 :: real, 3 :: real)), (3 / 10, (4, 5, 6))])
   \<and> (0 :: real) \<le> 1 / 10 \<and> (0 :: real) \<le> 3 / 10
   \<and> length [(1 / 10 :: real, (1 :: real, 2 :: real, 3 :: real)), (3 / 10, (4, 5, 6))] \<le> 2 ^ 20
   \<and> sum_list (map fst [(1 / 10 :: real, (1 :: real, 2 :: real, 3 :: real)), (3 / 10, (4, 5, 6))])
        \<le> 2 ^ 1023
   \<and> fl Exact (1 / 10 ^ 7) \<le> sum_loop Exact [(1 / 10, (1, 2, 3)), (3 / 10, (4, 5, 6))] 0
   \<and> normalize_weights Exact [(1 / 10, (1, 2, 3)), (3 / 10, (4, 5, 6))] =
       Inr [(1 / 4, (1, 2, 3)), (3 / 4, (4, 5, 6))]
   \<and> (\<exists>out. normalize_weights Exact [(1 / 10, (1, 2, 3)), (3 / 10, (4, 5, 6))] = Inr out \<and>
         sum_list (map fst out) = 1)
   \<and> normalize_finite [(1 / 10, (1, 2, 3)), (3 / 10, (4, 5, 6))]
   \<and> (\<exists>out. normalize_weights Binary64 [(1 / 10, (1, 2, 3)), (3 / 10, (4, 5, 6))] = Inr out \<and>
         \<bar>sum_list (map fst out) - 1\<bar> \<le> 1 / 10 ^ 9 \<and>
         map snd out = [(1, 2, 3), (4, 5, 6)])
   \<and> fl Binary64 (1 / 10 ^ 7) \<le> sum_loop Binary64 [(1 / 4, (1, 2, 3)), (3 / 4, (4, 5, 6))] 0
   \<and> normalize_finite [(1 / 4, (1, 2, 3)), (3 / 4, (4, 5, 6))]
   \<and> normalize_weights Binary64 [(1 / 4, (1, 2, 3)), (3 / 4, (4, 5, 6))] =
       Inr [(1 / 4, (1, 2, 3)), (3 / 4, (4, 5, 6))]"
proof -
  let ?ws = "[(1 / 10, (1, 2, 3)), (3 / 10, (4, 5, 6))] :: particle list"
  let ?v = "[(1 / 4, (1, 2, 3)), (3 / 4, (4, 5, 6))] :: particle list"
  note th = normalize_weights_sums_to_one[of ?ws Exact]
  have ge: "fl Exact (1 / 10 ^ 7) \<le> sum_loop Exact ?ws 0"
    by (simp add: fadd_def)
  with th have "normalize_weights Exact ?ws =
      Inr (map (\<lambda>p. (fl Exact (fst p / sum_loop Exact ?ws 0), snd p)) ?ws)" by blast
  then have eq: "normalize_weights Exact ?ws = Inr [(1 / 4, (1, 2, 3)), (3 / 4, (4, 5, 6))]"
    by (simp add: fadd_def)
  have pos: "?ws \<noteq> [] \<and> 0 < sum_list (map fst ?ws)" by simp
  with th have ex: "\<exists>out. normalize_weights Exact ?ws = Inr out \<and> sum_list (map fst out) = 1"
    by blast
  have bd: "sum_list (map fst ?ws) \<le> 2 ^ 1023" by simp
  have nn: "?ws \<noteq> [] \<and> (\<forall>p\<in>set ?ws. 0 \<le> fst p) \<and> length ?ws \<le> 2 ^ 20 \<and>
      sum_list (map fst ?ws) \<le> 2 ^ 1023" by simp
  with th have fb: "normalize_finite ?ws \<and>
      (\<exists>out. normalize_weights Binary64 ?ws = Inr out \<and>
         \<bar>sum_list (map fst out) - 1\<bar> \<le> 1 / 10 ^ 9 \<and> map snd out = map snd ?ws)"
    by blast
  then have f: "normalize_finite ?ws" by simp
  from fb have b: "\<exists>out. normalize_weights Binary64 ?ws = Inr out \<and>
         \<bar>sum_list (map fst out) - 1\<bar> \<le> 1 / 10 ^ 9 \<and> map snd out = [(1, 2, 3), (4, 5, 6)]"
    by simp
  have misc: "(0 :: real) \<le> 1 / 10 \<and> (0 :: real) \<le> 3 / 10 \<and> length ?ws \<le> 2 ^ 20" by simp
  note tv = normalize_weights_sums_to_one[of ?v Binary64]
  have Sv: "sum_loop Binary64 ?v 0 = 1"
    by (simp add: fadd_def b64_quarter b64_one)
  have gv: "fl Binary64 (1 / 10 ^ 7) \<le> sum_loop Binary64 ?v 0"
    unfolding Sv by (simp only: fl.simps binary64_literal_1e7) simp
  have "?v \<noteq> [] \<and> (\<forall>p\<in>set ?v. 0 \<le> fst p) \<and> length ?v \<le> 2 ^ 20 \<and>
      sum_list (map fst ?v) \<le> 2 ^ 1023" by simp
  with tv have fv: "normalize_finite ?v" by blast
  with tv gv have "normalize_weights Binary64 ?v =
      Inr (map (\<lambda>p. (fl Binary64 (fst p / sum_loop Binary64 ?v 0), snd p)) ?v)" by blast
  then have ev: "normalize_weights Binary64 ?v = Inr ?v"
    unfolding Sv by (simp add: b64_quarter b64_cancel_quot_b)
  from ge eq pos ex bd f b misc gv fv ev show ?thesis by (simp only: simp_thms)
qed

text \<open>
  In binary64 the claim fails for a list with positive weight sum that has a negative
  weight: the weights \<open>2\<^sup>5\<^sup>3\<close>, \<open>3\<close> and \<open>- 2\<^sup>5\<^sup>3\<close> add up to \<open>3\<close>, the loop computes \<open>4.0\<close>
  because \<open>2\<^sup>5\<^sup>3 + 3\<close> rounds to \<open>2\<^sup>5\<^sup>3 + 4\<close>, and the returned weights \<open>2\<^sup>5\<^sup>1\<close>, \<open>0.75\<close>
  and \<open>- 2\<^sup>5\<^sup>1\<close> add up to \<open>0.75\<close>. Nothing overflows in this computation. The number of
  particles matters as well: by \<open>normalize_weights_absorbs_small_weights\<close>, behind a
  weight \<open>1\<close> any number \<open>n\<close> of weights \<open>2\<^sup>-\<^sup>5\<^sup>4\<close> is absorbed by the sum, and the returned
  weights add up to \<open>1 + n / 2\<^sup>5\<^sup>4\<close>, which is \<open>1 + 2\<^sup>-\<^sup>2\<^sup>9\<close> for \<open>n = 2\<^sup>2\<^sup>5\<close>.
\<close>

theorem normalize_weights_cancellation:
  "[(9007199254740992, (0, 0, 0)), (3, (1, 0, 0)), (- 9007199254740992, (2, 0, 0))]
      \<noteq> ([] :: particle list)
   \<and> sum_list (map fst [(9007199254740992 :: real, (0 :: real, 0 :: real, 0 :: real)),
        (3, (1, 0, 0)), (- 9007199254740992, (2, 0, 0))]) = 3
   \<and> sum_loop Binary64
        [(9007199254740992, (0, 0, 0)), (3, (1, 0, 0)), (- 9007199254740992, (2, 0, 0))] 0 = 4
   \<and> normalize_finite
        [(9007199254740992, (0, 0, 0)), (3, (1, 0, 0)), (- 9007199254740992, (2, 0, 0))]
   \<and> normalize_weights Binary64
        [(9007199254740992, (0, 0, 0)), (3, (1, 0, 0)), (- 9007199254740992, (2, 0, 0))] =
       Inr [(2251799813685248, (0, 0, 0)), (3 / 4, (1, 0, 0)), (- 2251799813685248, (2, 0, 0))]
   \<and> sum_list (map fst [(2251799813685248 :: real, (0 :: real, 0 :: real, 0 :: real)),
        (3 / 4, (1, 0, 0)), (- 2251799813685248, (2, 0, 0))]) = 3 / 4
   \<and> \<not> \<bar>sum_list (map fst [(2251799813685248 :: real, (0 :: real, 0 :: real, 0 :: real)),
        (3 / 4, (1, 0, 0)), (- 2251799813685248, (2, 0, 0))]) - 1\<bar> \<le> 1 / 10 ^ 9"
proof -
  let ?in = "[(9007199254740992, (0, 0, 0)), (3, (1, 0, 0)), (- 9007199254740992, (2, 0, 0))]
    :: particle list"
  let ?out = "[(2251799813685248, (0, 0, 0)), (3 / 4, (1, 0, 0)), (- 2251799813685248, (2, 0, 0))]
    :: particle list"
  have S0: "sum_loop Binary64 [] 0 = 0" by simp
  have S1: "sum_loop Binary64 [(9007199254740992, (0, 0, 0))] 0 = 9007199254740992"
    by (simp only: sum_loop.simps fst_conv fadd_def fl.simps b64_cancel_sum1)
  have S2: "sum_loop Binary64 [(9007199254740992, (0, 0, 0)), (3, (1, 0, 0))] 0 = 9007199254740996"
    by (simp only: sum_loop.simps fst_conv fadd_def fl.simps b64_cancel_sum1 b64_cancel_sum2)
  have S: "sum_loop Binary64 ?in 0 = 4"
    by (simp only: sum_loop.simps fst_conv fadd_def fl.simps
        b64_cancel_sum1 b64_cancel_sum2 b64_cancel_sum3)
  have hi: "fl Binary64 (1 / 10 ^ 7) \<le> sum_loop Binary64 ?in 0"
    unfolding S by (simp only: fl.simps binary64_literal_1e7) simp
  from normalize_weights_high_sum[OF hi]
  have n: "normalize_weights Binary64 ?in = Inr ?out"
    by (simp only: S list.map fst_conv snd_conv fl.simps
        b64_cancel_quot_a b64_cancel_quot_b b64_cancel_quot_c)
  have big: "(9007199254740996 :: real) < 2 ^ 1024"
  proof -
    have "(2::real) ^ 54 \<le> 2 ^ 1024" by (rule power_increasing) simp_all
    then show ?thesis by simp
  qed
  have set3: "{..length ?in} = {0, 1, 2, 3}" by auto
  have p: "\<forall>k\<in>{..length ?in}. finite64 (sum_loop Binary64 (take k ?in) 0)"
    unfolding set3 using big S0 S1 S2 S by (simp add: finite64_def)
  have qa: "finite64 (fl Binary64 (9007199254740992 / 4))"
    unfolding fl.simps b64_cancel_quot_a finite64_def using big by simp
  have qb: "finite64 (fl Binary64 (3 / 4))"
    unfolding fl.simps b64_cancel_quot_b finite64_def using big by simp
  have qc: "finite64 (fl Binary64 (- 9007199254740992 / 4))"
    unfolding fl.simps b64_cancel_quot_c finite64_def using big by simp
  have q: "\<forall>p\<in>set ?in. finite64 (fl Binary64 (fst p / sum_loop Binary64 ?in 0))"
    unfolding S using qa qb qc by simp
  from p q have f: "normalize_finite ?in" unfolding normalize_finite_def by blast
  have e: "sum_list (map fst ?in) = 3" by simp
  have o: "sum_list (map fst ?out) = 3 / 4" by simp
  have t: "\<not> \<bar>sum_list (map fst ?out) - 1\<bar> \<le> 1 / 10 ^ 9" by simp
  have ne: "?in \<noteq> []" by simp
  from ne e S f n o t show ?thesis by (simp only: simp_thms)
qed

text \<open>
  Claim C4, as the code has it. Let the target count \<open>N\<close> be at least one and, in
  binary64, at most \<open>2\<^sup>5\<^sup>3\<close> (the range in which the conversion of \<open>N\<close> and of the loop
  counter to a float is exact), with cumulative weights that do not overflow. Then
  \<open>multinomial\<close> and \<open>stratified\<close> return exactly \<open>N\<close> particles, each with the weight
  \<open>1.0 / N\<close> and with the state of some given particle, when every value they search for is
  at most some cumulative weight as \<^verbatim>\<open>np.cumsum\<close> computes it; otherwise they raise
  \<open>IndexError\<close>. They return, in particular, when the computed cumulative weights end at
  \<open>1\<close> or above and every uniform draw lies below the upper end of the interval it is drawn
  from (\<open>1\<close> in \<open>multinomial\<close>, \<open>1.0 / N\<close> in \<open>stratified\<close>). In exact arithmetic the
  cumulative weights end at the sum of the weights.
\<close>

theorem resampling_output:
  "(1 \<le> N \<and>
    (a = Binary64 \<longrightarrow> N \<le> 2 ^ 53 \<and> (\<forall>q\<in>set (cumsum a (map fst samples)). finite64 q))
    \<longrightarrow>
      (if \<forall>k<nat N. covered (cumsum a (map fst samples)) (multinomial_draw a r k)
       then \<exists>out. multinomial a r samples N = Inr out \<and> length out = nat N \<and>
              (\<forall>p\<in>set out. fst p = fl a (1 / of_int N) \<and> snd p \<in> snd ` set samples)
       else multinomial a r samples N = Inl IndexError) \<and>
      (if \<forall>k<nat N. covered (cumsum a (map fst samples)) (stratified_draw a r N k)
       then \<exists>out. stratified a r samples N = Inr out \<and> length out = nat N \<and>
              (\<forall>p\<in>set out. fst p = fl a (1 / of_int N) \<and> snd p \<in> snd ` set samples)
       else stratified a r samples N = Inl IndexError) \<and>
      (samples \<noteq> [] \<and> 1 \<le> last (cumsum a (map fst samples)) \<and>
       (\<forall>k<nat N. uniform r k (fl a (1 / 10 ^ 10)) 1 < 1) \<and>
       (\<forall>k<nat N. uniform r k (fl a (1 / 10 ^ 10)) (fl a (1 / of_int N)) < fl a (1 / of_int N))
       \<longrightarrow>
         (\<exists>out. multinomial a r samples N = Inr out \<and> length out = nat N \<and>
            (\<forall>p\<in>set out. fst p = fl a (1 / of_int N) \<and> snd p \<in> snd ` set samples)) \<and>
         (\<exists>out. stratified a r samples N = Inr out \<and> length out = nat N \<and>
            (\<forall>p\<in>set out. fst p = fl a (1 / of_int N) \<and> snd p \<in> snd ` set samples))))
   \<and> (samples \<noteq> [] \<longrightarrow>
        last (cumsum Exact (map fst samples)) = sum_list (map fst samples))"
proof (intro conjI impI)
  assume "1 \<le> N \<and>
    (a = Binary64 \<longrightarrow> N \<le> 2 ^ 53 \<and> (\<forall>q\<in>set (cumsum a (map fst samples)). finite64 q))"
  then have N: "1 \<le> N" by simp
  show "if \<forall>k<nat N. covered (cumsum a (map fst samples)) (multinomial_draw a r k)
       then \<exists>out. multinomial a r samples N = Inr out \<and> length out = nat N \<and>
              (\<forall>p\<in>set out. fst p = fl a (1 / of_int N) \<and> snd p \<in> snd ` set samples)
       else multinomial a r samples N = Inl IndexError"
  proof (cases "\<forall>k<nat N. covered (cumsum a (map fst samples)) (multinomial_draw a r k)")
    case True
    show ?thesis by (subst if_P[OF True]) (rule multinomial_returns[OF N True])
  next
    case False
    then have "multinomial a r samples N = Inl IndexError"
      using multinomial_raises_iff[OF N, of a r samples] by blast
    then show ?thesis by (subst if_not_P[OF False])
  qed
next
  assume "1 \<le> N \<and>
    (a = Binary64 \<longrightarrow> N \<le> 2 ^ 53 \<and> (\<forall>q\<in>set (cumsum a (map fst samples)). finite64 q))"
  then have N: "1 \<le> N" by simp
  show "if \<forall>k<nat N. covered (cumsum a (map fst samples)) (stratified_draw a r N k)
       then \<exists>out. stratified a r samples N = Inr out \<and> length out = nat N \<and>
              (\<forall>p\<in>set out. fst p = fl a (1 / of_int N) \<and> snd p \<in> snd ` set samples)
       else stratified a r samples N = Inl IndexError"
  proof (cases "\<forall>k<nat N. covered (cumsum a (map fst samples)) (stratified_draw a r N k)")
    case True
    show ?thesis by (subst if_P[OF True]) (rule stratified_returns[OF N True])
  next
    case False
    then have "stratified a r samples N = Inl IndexError"
      using stratified_raises_iff[OF N, of a r samples] by blast
    then show ?thesis by (subst if_not_P[OF False])
  qed
next
  assume g: "1 \<le> N \<and>
    (a = Binary64 \<longrightarrow> N \<le> 2 ^ 53 \<and> (\<forall>q\<in>set (cumsum a (map fst samples)). finite64 q))"
  assume h: "samples \<noteq> [] \<and> 1 \<le> last (cumsum a (map fst samples)) \<and>
    (\<forall>k<nat N. uniform r k (fl a (1 / 10 ^ 10)) 1 < 1) \<and>
    (\<forall>k<nat N. uniform r k (fl a (1 / 10 ^ 10)) (fl a (1 / of_int N)) < fl a (1 / of_int N))"
  let ?Q = "cumsum a (map fst samples)"
  have ne: "?Q \<noteq> []" using h by (cases samples) simp_all
  have N: "1 \<le> N" using g by simp
  have N53: "a = Binary64 \<longrightarrow> N \<le> 2 ^ 53" using g by simp
  have "\<forall>k<nat N. covered ?Q (multinomial_draw a r k)"
  proof (intro allI impI)
    fix k assume "k < nat N"
    with h have "multinomial_draw a r k < 1" by (simp add: multinomial_draw_def)
    with h have "multinomial_draw a r k \<le> last ?Q" by linarith
    with ne show "covered ?Q (multinomial_draw a r k)" by (intro covered_last)
  qed
  from multinomial_returns[OF N this]
  show "\<exists>out. multinomial a r samples N = Inr out \<and> length out = nat N \<and>
         (\<forall>p\<in>set out. fst p = fl a (1 / of_int N) \<and> snd p \<in> snd ` set samples)" .
  have "\<forall>k<nat N. covered ?Q (stratified_draw a r N k)"
  proof (intro allI impI)
    fix j assume j: "j < nat N"
    with h have "uniform r j (fl a (1 / 10 ^ 10)) (fl a (1 / of_int N)) < fl a (1 / of_int N)"
      by blast
    from stratified_draw_le_one[OF N N53 j this]
    have "stratified_draw a r N j \<le> 1" .
    with h have "stratified_draw a r N j \<le> last ?Q" by linarith
    with ne show "covered ?Q (stratified_draw a r N j)" by (intro covered_last)
  qed
  from stratified_returns[OF N this]
  show "\<exists>out. stratified a r samples N = Inr out \<and> length out = nat N \<and>
         (\<forall>p\<in>set out. fst p = fl a (1 / of_int N) \<and> snd p \<in> snd ` set samples)" .
next
  assume "samples \<noteq> []"
  then show "last (cumsum Exact (map fst samples)) = sum_list (map fst samples)"
    by (intro cumsum_Exact_last) simp
qed

theorem resampling_output_witness:
  "(1::int) \<le> 2 \<and> (2::int) \<le> 2 ^ 53
   \<and> [(1 / 4, (1, 2, 3)), (3 / 4, (4, 5, 6))] \<noteq> ([] :: particle list)
   \<and> 1 \<le> last (cumsum Binary64 (map fst [(1 / 4 :: real, (1 :: real, 2 :: real, 3 :: real)), (3 / 4, (4, 5, 6))]))
   \<and> cumsum Binary64 (map fst [(1 / 4 :: real, (1 :: real, 2 :: real, 3 :: real)), (3 / 4, (4, 5, 6))])
        = [1 / 4, 1]
   \<and> finite64 (1 / 4) \<and> finite64 1
   \<and> uniform lowest_draws 0 (fl Binary64 (1 / 10 ^ 10)) 1 < 1
   \<and> uniform lowest_draws 1 (fl Binary64 (1 / 10 ^ 10)) 1 < 1
   \<and> uniform lowest_draws 0 (fl Binary64 (1 / 10 ^ 10)) (fl Binary64 (1 / of_int 2))
        < fl Binary64 (1 / of_int 2)
   \<and> uniform lowest_draws 1 (fl Binary64 (1 / 10 ^ 10)) (fl Binary64 (1 / of_int 2))
        < fl Binary64 (1 / of_int 2)
   \<and> (\<exists>out. multinomial Binary64 lowest_draws [(1 / 4, (1, 2, 3)), (3 / 4, (4, 5, 6))] 2 = Inr out
          \<and> length out = 2 \<and> fst ` set out = {1 / 2})
   \<and> (\<exists>out. stratified Binary64 lowest_draws [(1 / 4, (1, 2, 3)), (3 / 4, (4, 5, 6))] 2 = Inr out
          \<and> length out = 2 \<and> fst ` set out = {1 / 2})
   \<and> cumsum Exact (map fst [(1 / 4 :: real, (1 :: real, 2 :: real, 3 :: real)), (1 / 4, (4, 5, 6))])
        = [1 / 4, 1 / 2]
   \<and> multinomial_draw Exact (fixed_draws (3 / 4)) 0 = 3 / 4
   \<and> stratified_draw Exact (fixed_draws (3 / 4)) 2 0 = 3 / 4
   \<and> multinomial Exact (fixed_draws (3 / 4)) [(1 / 4, (1, 2, 3)), (1 / 4, (4, 5, 6))] 2
        = Inl IndexError
   \<and> stratified Exact (fixed_draws (3 / 4)) [(1 / 4, (1, 2, 3)), (1 / 4, (4, 5, 6))] 2
        = Inl IndexError
   \<and> last (cumsum Binary64 (map fst
        [(4850030367937457 / 9007199254740992 :: real, (0 :: real, 0 :: real, 0 :: real)),
         (4157168886803535 / 18014398509481984, (1, 0, 0)),
         (1385722962267845 / 18014398509481984, (2, 0, 0)),
         (1385722962267845 / 18014398509481984, (3, 0, 0)),
         (1385722962267845 / 18014398509481984, (4, 0, 0))])) < 1
   \<and> (\<exists>out. multinomial Binary64 lowest_draws
        [(4850030367937457 / 9007199254740992, (0, 0, 0)),
         (4157168886803535 / 18014398509481984, (1, 0, 0)),
         (1385722962267845 / 18014398509481984, (2, 0, 0)),
         (1385722962267845 / 18014398509481984, (3, 0, 0)),
         (1385722962267845 / 18014398509481984, (4, 0, 0))] 5 = Inr out \<and> length out = 5)"
proof -
  let ?s = "[(1 / 4, (1, 2, 3)), (3 / 4, (4, 5, 6))] :: particle list"
  let ?t = "[(1 / 4, (1, 2, 3)), (1 / 4, (4, 5, 6))] :: particle list"
  let ?W = "[(4850030367937457 / 9007199254740992, (0, 0, 0)),
         (4157168886803535 / 18014398509481984, (1, 0, 0)),
         (1385722962267845 / 18014398509481984, (2, 0, 0)),
         (1385722962267845 / 18014398509481984, (3, 0, 0)),
         (1385722962267845 / 18014398509481984, (4, 0, 0))] :: particle list"
  let ?r = "fixed_draws (3 / 4)"
  have lit: "fl Binary64 (1 / 10 ^ 10) = 7737125245533627 / 77371252455336267181195264"
    by (simp only: fl.simps b64_1e10)
  have half: "fl Binary64 (1 / of_int 2) = 1 / 2"
    using b64_half by simp
  have h0: "(1::int) \<le> 2" "(2::int) \<le> 2 ^ 53" by simp_all
  have h1: "1 \<le> last (cumsum Binary64 (map fst ?s))"
    by (simp add: fadd_def b64_one)
  have d: "uniform lowest_draws 0 (fl Binary64 (1 / 10 ^ 10)) 1 < 1"
    "uniform lowest_draws 1 (fl Binary64 (1 / 10 ^ 10)) 1 < 1"
    "uniform lowest_draws 0 (fl Binary64 (1 / 10 ^ 10)) (fl Binary64 (1 / of_int 2))
        < fl Binary64 (1 / of_int 2)"
    "uniform lowest_draws 1 (fl Binary64 (1 / 10 ^ 10)) (fl Binary64 (1 / of_int 2))
        < fl Binary64 (1 / of_int 2)"
    unfolding lit half by (simp_all add: lowest_draws_def)
  have h2: "\<forall>k<nat 2. uniform lowest_draws k (fl Binary64 (1 / 10 ^ 10)) 1 < 1"
    unfolding lit by (simp add: lowest_draws_def)
  have h3: "\<forall>k<nat 2. uniform lowest_draws k (fl Binary64 (1 / 10 ^ 10)) (fl Binary64 (1 / of_int 2))
      < fl Binary64 (1 / of_int 2)"
    unfolding lit half by (simp add: lowest_draws_def)
  have ne: "?s \<noteq> []" by simp
  have Qs: "cumsum Binary64 (map fst ?s) = [1 / 4, 1]"
    by (simp add: fadd_def b64_one)
  have fin: "finite64 (1 / 4)" "finite64 1"
    by (simp_all add: finite64_def)
  have fs: "\<forall>q\<in>set (cumsum Binary64 (map fst ?s)). finite64 q"
    unfolding Qs using fin by simp
  from resampling_output[of 2 Binary64 ?s lowest_draws] h0 ne h1 h2 h3 fs
  have th: "(\<exists>out. multinomial Binary64 lowest_draws ?s 2 = Inr out \<and> length out = nat 2 \<and>
         (\<forall>p\<in>set out. fst p = fl Binary64 (1 / of_int 2) \<and> snd p \<in> snd ` set ?s)) \<and>
      (\<exists>out. stratified Binary64 lowest_draws ?s 2 = Inr out \<and> length out = nat 2 \<and>
         (\<forall>p\<in>set out. fst p = fl Binary64 (1 / of_int 2) \<and> snd p \<in> snd ` set ?s))"
    by blast
  have uni: "\<And>out :: particle list. length out = nat 2 \<Longrightarrow>
      \<forall>p\<in>set out. fst p = fl Binary64 (1 / of_int 2) \<and> snd p \<in> snd ` set ?s
      \<Longrightarrow> length out = 2 \<and> fst ` set out = {1 / 2}"
  proof -
    fix out :: "particle list"
    assume l: "length out = nat 2"
      and a: "\<forall>p\<in>set out. fst p = fl Binary64 (1 / of_int 2) \<and> snd p \<in> snd ` set ?s"
    from l have "out \<noteq> []" by auto
    then obtain p where "p \<in> set out" by (cases out) auto
    with a have "fst ` set out = {1 / 2}" unfolding half by force
    with l show "length out = 2 \<and> fst ` set out = {1 / 2}" by simp
  qed
  from th obtain out1 where o1: "multinomial Binary64 lowest_draws ?s 2 = Inr out1"
    "length out1 = nat 2"
    "\<forall>p\<in>set out1. fst p = fl Binary64 (1 / of_int 2) \<and> snd p \<in> snd ` set ?s" by blast
  from uni[OF o1(2,3)] o1(1)
  have m: "\<exists>out. multinomial Binary64 lowest_draws ?s 2 = Inr out \<and> length out = 2 \<and>
      fst ` set out = {1 / 2}"
    by blast
  from th obtain out2 where o2: "stratified Binary64 lowest_draws ?s 2 = Inr out2"
    "length out2 = nat 2"
    "\<forall>p\<in>set out2. fst p = fl Binary64 (1 / of_int 2) \<and> snd p \<in> snd ` set ?s" by blast
  from uni[OF o2(2,3)] o2(1)
  have s: "\<exists>out. stratified Binary64 lowest_draws ?s 2 = Inr out \<and> length out = 2 \<and>
      fst ` set out = {1 / 2}"
    by blast
  have Qt: "cumsum Exact (map fst ?t) = [1 / 4, 1 / 2]"
    by (simp add: fadd_def)
  have dm: "multinomial_draw Exact ?r 0 = 3 / 4"
    by (simp add: multinomial_draw_def fixed_draws_def)
  have ds: "stratified_draw Exact ?r 2 0 = 3 / 4"
    by (simp add: stratified_draw_def fixed_draws_def fadd_def fmul_def)
  note tt = resampling_output[of 2 Exact ?t ?r]
  have gE: "1 \<le> (2::int) \<and> (Exact = Binary64 \<longrightarrow> (2::int) \<le> 2 ^ 53 \<and>
      (\<forall>q\<in>set (cumsum Exact (map fst ?t)). finite64 q))" by simp
  have nm: "\<not> (\<forall>k<nat 2. covered (cumsum Exact (map fst ?t)) (multinomial_draw Exact ?r k))"
  proof
    assume "\<forall>k<nat 2. covered (cumsum Exact (map fst ?t)) (multinomial_draw Exact ?r k)"
    then have "covered (cumsum Exact (map fst ?t)) (multinomial_draw Exact ?r 0)" by simp
    then show False unfolding Qt dm by (simp add: covered_list_ex)
  qed
  have ns: "\<not> (\<forall>k<nat 2. covered (cumsum Exact (map fst ?t)) (stratified_draw Exact ?r 2 k))"
  proof
    assume "\<forall>k<nat 2. covered (cumsum Exact (map fst ?t)) (stratified_draw Exact ?r 2 k)"
    then have "covered (cumsum Exact (map fst ?t)) (stratified_draw Exact ?r 2 0)" by simp
    then show False unfolding Qt ds by (simp add: covered_list_ex)
  qed
  from tt gE have
    "if \<forall>k<nat 2. covered (cumsum Exact (map fst ?t)) (multinomial_draw Exact ?r k)
     then \<exists>out. multinomial Exact ?r ?t 2 = Inr out \<and> length out = nat 2 \<and>
              (\<forall>p\<in>set out. fst p = fl Exact (1 / of_int 2) \<and> snd p \<in> snd ` set ?t)
     else multinomial Exact ?r ?t 2 = Inl IndexError"
    by blast
  then have rm: "multinomial Exact ?r ?t 2 = Inl IndexError"
    unfolding if_not_P[OF nm] .
  from tt gE have
    "if \<forall>k<nat 2. covered (cumsum Exact (map fst ?t)) (stratified_draw Exact ?r 2 k)
     then \<exists>out. stratified Exact ?r ?t 2 = Inr out \<and> length out = nat 2 \<and>
              (\<forall>p\<in>set out. fst p = fl Exact (1 / of_int 2) \<and> snd p \<in> snd ` set ?t)
     else stratified Exact ?r ?t 2 = Inl IndexError"
    by blast
  then have rs: "stratified Exact ?r ?t 2 = Inl IndexError"
    unfolding if_not_P[OF ns] .
  have QW: "cumsum Binary64 (map fst ?W) =
      [4850030367937457 / 9007199254740992, 866076851417403 / 1125899906842624,
       3810738146236573 / 4503599627370496, 2078584443401767 / 2251799813685248,
       4503599627370495 / 4503599627370496]"
    by (simp only: list.map fst_conv cumsum.simps cumsum_from.simps fadd_def fl.simps
        b64_w13_cum2 b64_w13_cum3 b64_w13_cum4 b64_w13_cum5)
  have lW: "last (cumsum Binary64 (map fst ?W)) < 1"
    unfolding QW by simp
  have cW: "\<forall>k<nat 5. covered (cumsum Binary64 (map fst ?W)) (multinomial_draw Binary64 lowest_draws k)"
    unfolding QW multinomial_draw_def lit by (simp add: covered_list_ex lowest_draws_def)
  have fW: "\<forall>q\<in>set (cumsum Binary64 (map fst ?W)). finite64 q"
    unfolding QW by (simp add: finite64_def)
  have "(1::int) \<le> 5 \<and> (5::int) \<le> 2 ^ 53" by simp
  with fW resampling_output[of 5 Binary64 ?W lowest_draws] have
    "if \<forall>k<nat 5. covered (cumsum Binary64 (map fst ?W)) (multinomial_draw Binary64 lowest_draws k)
     then \<exists>out. multinomial Binary64 lowest_draws ?W 5 = Inr out \<and> length out = nat 5 \<and>
              (\<forall>p\<in>set out. fst p = fl Binary64 (1 / of_int 5) \<and> snd p \<in> snd ` set ?W)
     else multinomial Binary64 lowest_draws ?W 5 = Inl IndexError"
    by blast
  then have "\<exists>out. multinomial Binary64 lowest_draws ?W 5 = Inr out \<and> length out = nat 5 \<and>
              (\<forall>p\<in>set out. fst p = fl Binary64 (1 / of_int 5) \<and> snd p \<in> snd ` set ?W)"
    unfolding if_P[OF cW] .
  then have rW: "\<exists>out. multinomial Binary64 lowest_draws ?W 5 = Inr out \<and> length out = 5"
    by auto
  from h0 ne h1 Qs fin d m s Qt dm ds rm rs lW rW show ?thesis by (simp only: simp_thms)
qed

text \<open>
  In binary64 the claim fails for normalized weights. \<open>normalize_weights\<close> turns the
  weights \<open>7\<close>, \<open>3\<close>, \<open>1\<close>, \<open>1\<close>, \<open>1\<close> into five binary64 numbers that add up to \<open>1\<close> exactly,
  but their cumulative sums, each rounded, end at \<open>1 - 2\<^sup>-\<^sup>5\<^sup>2 = 0.9999999999999998\<close>. The
  binary64 number \<open>1 - 2\<^sup>-\<^sup>5\<^sup>3\<close> of the interval \<open>[1e-10, 1)\<close> is greater, and \<open>multinomial\<close>
  raises \<open>IndexError\<close> when it is drawn. Nothing overflows in this computation.
\<close>

theorem multinomial_raises_on_normalized_weights:
  "normalize_weights Binary64
      [(7, (0, 0, 0)), (3, (1, 0, 0)), (1, (2, 0, 0)), (1, (3, 0, 0)), (1, (4, 0, 0))] =
     Inr [(4850030367937457 / 9007199254740992, (0, 0, 0)),
          (4157168886803535 / 18014398509481984, (1, 0, 0)),
          (1385722962267845 / 18014398509481984, (2, 0, 0)),
          (1385722962267845 / 18014398509481984, (3, 0, 0)),
          (1385722962267845 / 18014398509481984, (4, 0, 0))]
   \<and> normalize_finite
        [(7, (0, 0, 0)), (3, (1, 0, 0)), (1, (2, 0, 0)), (1, (3, 0, 0)), (1, (4, 0, 0))]
   \<and> sum_list [4850030367937457 / 9007199254740992, 4157168886803535 / 18014398509481984,
        1385722962267845 / 18014398509481984, 1385722962267845 / 18014398509481984,
        1385722962267845 / 18014398509481984 :: real] = 1
   \<and> last (cumsum Binary64
        [4850030367937457 / 9007199254740992, 4157168886803535 / 18014398509481984,
         1385722962267845 / 18014398509481984, 1385722962267845 / 18014398509481984,
         1385722962267845 / 18014398509481984]) = 1 - 1 / 2 ^ 52
   \<and> fl Binary64 (1 / 10 ^ 10) \<le> uniform (fixed_draws (1 - 1 / 2 ^ 53)) 0 (fl Binary64 (1 / 10 ^ 10)) 1
   \<and> uniform (fixed_draws (1 - 1 / 2 ^ 53)) 0 (fl Binary64 (1 / 10 ^ 10)) 1 < 1
   \<and> binary64 (uniform (fixed_draws (1 - 1 / 2 ^ 53)) 0 (fl Binary64 (1 / 10 ^ 10)) 1) =
       uniform (fixed_draws (1 - 1 / 2 ^ 53)) 0 (fl Binary64 (1 / 10 ^ 10)) 1
   \<and> multinomial Binary64 (fixed_draws (1 - 1 / 2 ^ 53))
       [(4850030367937457 / 9007199254740992, (0, 0, 0)),
        (4157168886803535 / 18014398509481984, (1, 0, 0)),
        (1385722962267845 / 18014398509481984, (2, 0, 0)),
        (1385722962267845 / 18014398509481984, (3, 0, 0)),
        (1385722962267845 / 18014398509481984, (4, 0, 0))] 5 = Inl IndexError"
proof -
  let ?in = "[(7, (0, 0, 0)), (3, (1, 0, 0)), (1, (2, 0, 0)), (1, (3, 0, 0)), (1, (4, 0, 0))]
    :: particle list"
  let ?W = "[(4850030367937457 / 9007199254740992, (0, 0, 0)),
          (4157168886803535 / 18014398509481984, (1, 0, 0)),
          (1385722962267845 / 18014398509481984, (2, 0, 0)),
          (1385722962267845 / 18014398509481984, (3, 0, 0)),
          (1385722962267845 / 18014398509481984, (4, 0, 0))] :: particle list"
  have S: "sum_loop Binary64 ?in 0 = 13"
    by (simp only: sum_loop.simps fst_conv fadd_def fl.simps
        b64_w13_sum1 b64_w13_sum2 b64_w13_sum3 b64_w13_sum4 b64_w13_sum5)
  have "fl Binary64 (1 / 10 ^ 7) \<le> sum_loop Binary64 ?in 0"
    unfolding S by (simp only: fl.simps binary64_literal_1e7) simp
  from normalize_weights_high_sum[OF this]
  have n: "normalize_weights Binary64 ?in = Inr ?W"
    by (simp only: S list.map fst_conv snd_conv fl.simps
        b64_w13_quot7 b64_w13_quot3 b64_w13_quot1)
  have nf: "normalize_finite ?in"
    by (intro normalize_finite_nonneg) simp_all
  have s: "sum_list [4850030367937457 / 9007199254740992, 4157168886803535 / 18014398509481984,
        1385722962267845 / 18014398509481984, 1385722962267845 / 18014398509481984,
        1385722962267845 / 18014398509481984 :: real] = 1"
    by simp
  have Q: "cumsum Binary64 (map fst ?W) =
      [4850030367937457 / 9007199254740992, 866076851417403 / 1125899906842624,
       3810738146236573 / 4503599627370496, 2078584443401767 / 2251799813685248,
       4503599627370495 / 4503599627370496]"
    by (simp only: list.map fst_conv cumsum.simps cumsum_from.simps fadd_def fl.simps
        b64_w13_cum2 b64_w13_cum3 b64_w13_cum4 b64_w13_cum5)
  have l: "last (cumsum Binary64
        [4850030367937457 / 9007199254740992, 4157168886803535 / 18014398509481984,
         1385722962267845 / 18014398509481984, 1385722962267845 / 18014398509481984,
         1385722962267845 / 18014398509481984]) = 1 - 1 / 2 ^ 52"
    using Q by (simp only: list.map fst_conv) simp
  have lit: "fl Binary64 (1 / 10 ^ 10) = 7737125245533627 / 77371252455336267181195264"
    by (simp only: fl.simps b64_1e10)
  have u: "uniform (fixed_draws (1 - 1 / 2 ^ 53)) 0 (fl Binary64 (1 / 10 ^ 10)) 1 = 1 - 1 / 2 ^ 53"
    by (simp add: fixed_draws_def)
  have d: "fl Binary64 (1 / 10 ^ 10) \<le> uniform (fixed_draws (1 - 1 / 2 ^ 53)) 0 (fl Binary64 (1 / 10 ^ 10)) 1"
    "uniform (fixed_draws (1 - 1 / 2 ^ 53)) 0 (fl Binary64 (1 / 10 ^ 10)) 1 < 1"
    using lit by (simp_all add: fixed_draws_def)
  have f: "binary64 (uniform (fixed_draws (1 - 1 / 2 ^ 53)) 0 (fl Binary64 (1 / 10 ^ 10)) 1) =
       uniform (fixed_draws (1 - 1 / 2 ^ 53)) 0 (fl Binary64 (1 / 10 ^ 10)) 1"
    unfolding u by (rule b64_below_one)
  have "\<not> covered (cumsum Binary64 (map fst ?W)) (multinomial_draw Binary64 (fixed_draws (1 - 1 / 2 ^ 53)) 0)"
    unfolding Q by (simp add: covered_list_ex multinomial_draw_def fixed_draws_def)
  then have "\<exists>k<nat 5. \<not> covered (cumsum Binary64 (map fst ?W))
      (multinomial_draw Binary64 (fixed_draws (1 - 1 / 2 ^ 53)) k)"
    by (intro exI[of _ 0]) simp
  then have m: "multinomial Binary64 (fixed_draws (1 - 1 / 2 ^ 53)) ?W 5 = Inl IndexError"
    by (subst multinomial_raises_iff) simp_all
  from n nf s l d f m show ?thesis by (simp only: simp_thms)
qed

text \<open>
  Claim C5. \<open>update\<close> never reads the configured process noise. Two filters that differ
  only in \<open>process_noise\<close> and receive the same inputs and the same random draws end with
  equal particle sets (or raise the same error), and the result keeps whatever process
  noise the filter had. The prediction samples with the covariance of the constants
  \<open>(0.07, 0.07, 0.1)\<close> only: two random sources that agree on the normal draws of that
  covariance and on the uniform draws give the same result.
\<close>

theorem update_ignores_process_noise:
  "update a r (f\<lparr>process_noise := pn\<rparr>) fwd ang meas lms =
     map_sum id (\<lambda>g. g\<lparr>process_noise := pn\<rparr>) (update a r f fwd ang meas lms)
   \<and> map_sum id particles (update a r (f\<lparr>process_noise := pn\<rparr>) fwd ang meas lms) =
     map_sum id particles (update a r f fwd ang meas lms)
   \<and> ((\<forall>i mean. multivariate_normal r i mean (fixed_covariance a) =
                 multivariate_normal r' i mean (fixed_covariance a)) \<and>
       uniform r = uniform r' \<longrightarrow>
       update a r f fwd ang meas lms = update a r' f fwd ang meas lms)"
proof (intro conjI impI)
  show "update a r (f\<lparr>process_noise := pn\<rparr>) fwd ang meas lms =
     map_sum id (\<lambda>g. g\<lparr>process_noise := pn\<rparr>) (update a r f fwd ang meas lms)"
    by (rule update_process_noise)
  then show "map_sum id particles (update a r (f\<lparr>process_noise := pn\<rparr>) fwd ang meas lms) =
     map_sum id particles (update a r f fwd ang meas lms)"
    by (cases "update a r f fwd ang meas lms") simp_all
next
  assume "(\<forall>i mean. multivariate_normal r i mean (fixed_covariance a) =
                 multivariate_normal r' i mean (fixed_covariance a)) \<and>
       uniform r = uniform r'"
  then show "update a r f fwd ang meas lms = update a r' f fwd ang meas lms"
    by (intro update_cong) blast+
qed

theorem update_ignores_process_noise_witness:
  "(\<forall>i mean. multivariate_normal lowest_draws i mean (fixed_covariance Binary64) =
       multivariate_normal (other_covariance_draws Binary64) i mean (fixed_covariance Binary64))
   \<and> uniform lowest_draws = uniform (other_covariance_draws Binary64)
   \<and> update Binary64 lowest_draws (demo_filter\<lparr>particles := Some [(1, (1, 2, 3))]\<rparr>) 1 0 [] [] =
     update Binary64 (other_covariance_draws Binary64)
       (demo_filter\<lparr>particles := Some [(1, (1, 2, 3))]\<rparr>) 1 0 [] []
   \<and> map_sum id particles
       (update Binary64 lowest_draws
          (demo_filter\<lparr>particles := Some [(1, (1, 2, 3))], process_noise := (5, 5)\<rparr>) 1 0 [] []) =
     map_sum id particles
       (update Binary64 lowest_draws (demo_filter\<lparr>particles := Some [(1, (1, 2, 3))]\<rparr>) 1 0 [] [])"
proof -
  let ?f = "demo_filter\<lparr>particles := Some [(1, (1, 2, 3))]\<rparr>"
  note th = update_ignores_process_noise[where a = Binary64 and r = lowest_draws and f = ?f
      and pn = "(5, 5)" and fwd = 1 and ang = 0 and meas = "[]" and lms = "[]"
      and r' = "other_covariance_draws Binary64"]
  have a: "\<forall>i mean. multivariate_normal lowest_draws i mean (fixed_covariance Binary64) =
       multivariate_normal (other_covariance_draws Binary64) i mean (fixed_covariance Binary64)"
    by (simp add: lowest_draws_def other_covariance_draws_def)
  have b: "uniform lowest_draws = uniform (other_covariance_draws Binary64)"
    by (simp add: lowest_draws_def other_covariance_draws_def)
  from th a b have c: "update Binary64 lowest_draws ?f 1 0 [] [] =
     update Binary64 (other_covariance_draws Binary64) ?f 1 0 [] []" by blast
  from th have d: "map_sum id particles
       (update Binary64 lowest_draws (?f\<lparr>process_noise := (5, 5)\<rparr>) 1 0 [] []) =
     map_sum id particles (update Binary64 lowest_draws ?f 1 0 [] [])" by blast
  from a b c d show ?thesis by (simp only: simp_thms)
qed

text \<open>
  Claim C6, as the code has it. For positive \<open>x_max\<close> and \<open>y_max\<close>, \<open>validate_state\<close>
  returns \<open>x\<close> modulo \<open>x_max\<close>, \<open>y\<close> modulo \<open>y_max\<close> and the heading modulo \<open>2\<pi>\<close>. In exact
  arithmetic the results lie in \<open>[0, x_max)\<close>, \<open>[0, y_max)\<close> and \<open>[0, 2\<pi>)\<close>. In binary64,
  for limits that are binary64 numbers, they lie in the closed intervals \<open>[0, x_max]\<close>,
  \<open>[0, y_max]\<close> and \<open>[0, 2\<pi>]\<close> (\<open>2\<pi>\<close> as computed). In either arithmetic \<open>x_min\<close> and
  \<open>y_min\<close> have no influence on the result.
\<close>

theorem validate_state_wraps:
  "(0 < x_max f \<and> 0 < y_max f \<longrightarrow>
      (\<exists>x' y' h'. validate_state Exact f (x, y, h) = Inr (x', y', h') \<and>
         x' = x - x_max f * of_int \<lfloor>x / x_max f\<rfloor> \<and> 0 \<le> x' \<and> x' < x_max f \<and>
         y' = y - y_max f * of_int \<lfloor>y / y_max f\<rfloor> \<and> 0 \<le> y' \<and> y' < y_max f \<and>
         h' = h - 2 * pi * of_int \<lfloor>h / (2 * pi)\<rfloor> \<and> 0 \<le> h' \<and> h' < 2 * pi))
   \<and> (0 < x_max f \<and> 0 < y_max f \<and> binary64 (x_max f) = x_max f \<and> binary64 (y_max f) = y_max f
        \<longrightarrow>
      (\<exists>x' y' h'. validate_state Binary64 f (x, y, h) = Inr (x', y', h') \<and>
         0 \<le> x' \<and> x' \<le> x_max f \<and> 0 \<le> y' \<and> y' \<le> y_max f \<and>
         0 \<le> h' \<and> h' \<le> fmul Binary64 2 (fl Binary64 pi)))
   \<and> validate_state a (f\<lparr>x_min := u, y_min := v\<rparr>) s = validate_state a f s"
proof (intro conjI impI)
  assume "0 < x_max f \<and> 0 < y_max f"
  moreover have "0 < 2 * pi" by simp
  ultimately show "\<exists>x' y' h'. validate_state Exact f (x, y, h) = Inr (x', y', h') \<and>
         x' = x - x_max f * of_int \<lfloor>x / x_max f\<rfloor> \<and> 0 \<le> x' \<and> x' < x_max f \<and>
         y' = y - y_max f * of_int \<lfloor>y / y_max f\<rfloor> \<and> 0 \<le> y' \<and> y' < y_max f \<and>
         h' = h - 2 * pi * of_int \<lfloor>h / (2 * pi)\<rfloor> \<and> 0 \<le> h' \<and> h' < 2 * pi"
    using floor_remainder_range[of "x_max f" x] floor_remainder_range[of "y_max f" y]
      floor_remainder_range[of "2 * pi" h]
    by (simp add: validate_state_def np_mod_Exact fmul_def)
next
  assume "0 < x_max f \<and> 0 < y_max f \<and> binary64 (x_max f) = x_max f \<and>
    binary64 (y_max f) = y_max f"
  then show "\<exists>x' y' h'. validate_state Binary64 f (x, y, h) = Inr (x', y', h') \<and>
         0 \<le> x' \<and> x' \<le> x_max f \<and> 0 \<le> y' \<and> y' \<le> y_max f \<and>
         0 \<le> h' \<and> h' \<le> fmul Binary64 2 (fl Binary64 pi)"
    by (intro validate_state_range) simp_all
next
  show "validate_state a (f\<lparr>x_min := u, y_min := v\<rparr>) s = validate_state a f s"
    by (simp add: validate_state_def)
qed

theorem validate_state_wraps_witness:
  "0 < x_max demo_filter \<and> 0 < y_max demo_filter
   \<and> binary64 (x_max demo_filter) = x_max demo_filter
   \<and> binary64 (y_max demo_filter) = y_max demo_filter
   \<and> validate_state Exact demo_filter (25, - 3, - 1) = Inr (5, 17, 2 * pi - 1)
   \<and> validate_state Exact (demo_filter\<lparr>x_min := 5, y_min := 7\<rparr>) (25, - 3, - 1) =
       Inr (5, 17, 2 * pi - 1)
   \<and> (\<exists>x' y' h'. validate_state Binary64 demo_filter (25, - 3, - 1) = Inr (x', y', h') \<and>
         0 \<le> x' \<and> x' \<le> 20 \<and> 0 \<le> y' \<and> y' \<le> 20 \<and> 0 \<le> h')"
proof -
  note th = validate_state_wraps[where f = demo_filter and x = 25 and y = "- 3" and h = "- 1"
      and a = Exact and u = 5 and v = 7 and s = "(25, - 3, - 1)"]
  have lim: "x_max demo_filter = 20" "y_max demo_filter = 20"
    by (simp_all add: demo_filter_def)
  have dbl: "binary64 (x_max demo_filter) = x_max demo_filter"
    "binary64 (y_max demo_filter) = y_max demo_filter"
    by (simp_all only: lim b64_20)
  have f1: "\<lfloor>25 / 20 :: real\<rfloor> = 1" by simp
  have f2: "\<lfloor>- 3 / 20 :: real\<rfloor> = - 1" by simp
  have "- 1 \<le> - 1 / (2 * pi)" "- 1 / (2 * pi) < 0"
    using pi_ge_two by (simp_all add: field_simps)
  then have f3: "\<lfloor>- 1 / (2 * pi)\<rfloor> = - 1" by (intro floor_unique) simp_all
  from th lim obtain x' y' h' where r: "validate_state Exact demo_filter (25, - 3, - 1) = Inr (x', y', h')"
    "x' = 25 - 20 * of_int \<lfloor>25 / 20 :: real\<rfloor>" "y' = - 3 - 20 * of_int \<lfloor>- 3 / 20 :: real\<rfloor>"
    "h' = - 1 - 2 * pi * of_int \<lfloor>- 1 / (2 * pi)\<rfloor>"
    by auto
  have "x' = 5" unfolding r(2) f1 by simp
  moreover have "y' = 17" unfolding r(3) f2 by simp
  moreover have "h' = 2 * pi - 1" unfolding r(4) f3 by simp
  ultimately have v: "validate_state Exact demo_filter (25, - 3, - 1) = Inr (5, 17, 2 * pi - 1)"
    using r(1) by simp
  from th have w: "validate_state Exact (demo_filter\<lparr>x_min := 5, y_min := 7\<rparr>) (25, - 3, - 1) =
      validate_state Exact demo_filter (25, - 3, - 1)" by blast
  have pos: "0 < x_max demo_filter \<and> 0 < y_max demo_filter" by (simp add: lim)
  with th dbl obtain x2 y2 h2 where b: "validate_state Binary64 demo_filter (25, - 3, - 1) = Inr (x2, y2, h2)"
    "0 \<le> x2" "x2 \<le> x_max demo_filter" "0 \<le> y2" "y2 \<le> y_max demo_filter" "0 \<le> h2"
    by blast
  then have "\<exists>x' y' h'. validate_state Binary64 demo_filter (25, - 3, - 1) = Inr (x', y', h') \<and>
         0 \<le> x' \<and> x' \<le> 20 \<and> 0 \<le> y' \<and> y' \<le> 20 \<and> 0 \<le> h'"
    unfolding lim by blast
  with v w pos dbl show ?thesis by (simp only: simp_thms)
qed

text \<open>
  In binary64 the bound \<open>x < x_max\<close> of the claim fails: for \<open>x = - 2\<^sup>-\<^sup>7\<^sup>0\<close> and
  \<open>x_max = 20\<close> the remainder \<open>fmod\<close> is \<open>x\<close> itself and the addition \<open>x + 20\<close> rounds
  to \<open>20\<close>.
\<close>

theorem validate_state_reaches_x_max:
  "validate_state Binary64 demo_filter (- (1 / 2 ^ 70), 0, 0) = Inr (20, 0, 0)
   \<and> x_max demo_filter = 20"
proof -
  have x: "x_max demo_filter = 20" and y: "y_max demo_filter = 20"
    by (simp_all add: demo_filter_def)
  have h1: "np_mod Binary64 0 20 = Inr 0" by (simp add: np_mod_zero)
  have h2: "np_mod Binary64 0 (fmul Binary64 2 (fl Binary64 pi)) = Inr 0"
    using two_pi_Binary64_pos by (simp add: np_mod_zero)
  have "validate_state Binary64 demo_filter (- (1 / 2 ^ 70), 0, 0) = Inr (20, 0, 0)"
    by (simp only: validate_state_def prod.case x y np_mod_tiny_negative h1 h2 bind_def
        sum.case)
  with x show ?thesis by simp
qed

text \<open>
  Claim C7, as the code has it. The SIR trigger is true for every particle set. In exact
  arithmetic the NEPR trigger and the MWR trigger, on \<open>N \<ge> 1\<close> particles that all have
  weight \<open>1 / N\<close>, are true exactly when \<open>N < threshold\<close>.
\<close>

theorem triggers_on_uniform_weights_Exact:
  assumes "1 \<le> N" and "length ps = N" and "\<forall>p\<in>set ps. fst p = 1 / real N"
  shows "SIR_needs_resampling qs = Inr True
       \<and> NEPR_needs_resampling Exact threshold ps = Inr (real N < threshold)
       \<and> MWR_needs_resampling Exact threshold ps = Inr (real N < threshold)"
proof (intro conjI)
  show "SIR_needs_resampling qs = Inr True" by (simp add: SIR_needs_resampling_def)
  have N: "real N \<noteq> 0" using assms(1) by simp
  have "squares_loop Exact ps 0 = real N * (1 / real N * (1 / real N))"
    using sum_list_uniform[OF assms(3)] assms(2) by (simp add: squares_loop_Exact)
  also have "\<dots> = 1 / real N" using N by simp
  finally have sq: "squares_loop Exact ps 0 = 1 / real N" .
  show "NEPR_needs_resampling Exact threshold ps = Inr (real N < threshold)"
    using N by (simp add: NEPR_needs_resampling_def sq py_div_def bind_def)
  have ne: "ps \<noteq> []" using assms(1,2) by auto
  then have "fst ` set ps = {1 / real N}" using assms(3) by (cases ps) auto
  then have "max_loop ps 0 = 1 / real N"
    using N assms(1) by (simp add: max_loop_Max)
  then show "MWR_needs_resampling Exact threshold ps = Inr (real N < threshold)"
    using N by (simp add: MWR_needs_resampling_def py_div_def bind_def)
qed

theorem triggers_on_uniform_weights_Exact_witness:
  "(1::nat) \<le> 4
   \<and> length (replicate 4 (1 / 4 :: real, (0 :: real, 0 :: real, 0 :: real))) = 4
   \<and> SIR_needs_resampling [] = Inr True
   \<and> NEPR_needs_resampling Exact 5 (replicate 4 (1 / 4, (0, 0, 0))) = Inr True
   \<and> NEPR_needs_resampling Exact 4 (replicate 4 (1 / 4, (0, 0, 0))) = Inr False
   \<and> MWR_needs_resampling Exact 200 (replicate 4 (1 / 4, (0, 0, 0))) = Inr True
   \<and> MWR_needs_resampling Exact 3 (replicate 4 (1 / 4, (0, 0, 0))) = Inr False"
proof -
  let ?ps = "replicate 4 (1 / 4, (0, 0, 0)) :: particle list"
  have a: "(1::nat) \<le> 4" "length ?ps = 4" "\<forall>p\<in>set ?ps. fst p = 1 / real 4" by simp_all
  from triggers_on_uniform_weights_Exact[OF a, of "[]" 5]
    triggers_on_uniform_weights_Exact[OF a, of "[]" 4]
    triggers_on_uniform_weights_Exact[OF a, of "[]" 200]
    triggers_on_uniform_weights_Exact[OF a, of "[]" 3]
  show ?thesis by simp
qed

text \<open>
  In binary64 the equivalence of the claim fails at the boundary: five particles of weight
  \<open>1.0 / 5\<close> give \<open>1 / \<Sum> w\<^sup>2 = 4.999999999999999\<close>, so the NEPR trigger with threshold \<open>5\<close>
  is true although \<open>5 < 5\<close> is false.
\<close>

theorem NEPR_five_uniform_rounds:
  "NEPR_needs_resampling Binary64 5 (replicate 5 (fl Binary64 (1 / 5), (0, 0, 0))) = Inr True
   \<and> \<not> (5::real) < 5"
proof -
  let ?ps = "replicate 5 (fl Binary64 (1 / 5), (0, 0, 0))"
  have sq: "squares_loop Binary64 ?ps 0 = 7205759403792795 / 36028797018963968"
    by (simp only: replicate_5 squares_loop.simps fst_conv fadd_def fsquare_def fl.simps
        b64_fifth b64_fifth_sq b64_sq1 b64_sq2 b64_sq3 b64_sq4 b64_sq5)
  have dv: "py_div Binary64 1 (7205759403792795 / 36028797018963968) =
      Inr (5629499534213119 / 1125899906842624)"
    by (simp only: py_div_def fl.simps b64_neff) simp
  have "NEPR_needs_resampling Binary64 5 ?ps =
      Inr ((5629499534213119 / 1125899906842624 :: real) < 5)"
    by (simp only: NEPR_needs_resampling_def sq dv bind_def sum.case)
  also have "\<dots> = Inr True" by simp
  finally show ?thesis by simp
qed

text \<open>
  Claim C8. A particle at the position of the only landmark, the measurement \<open>(0.0, 0.0)\<close>
  and the noise \<open>(0.2, 0.05)\<close> give the likelihood \<open>1\<close>, in exact arithmetic and in
  binary64; with no landmark the likelihood is \<open>1\<close> for every pose and every measurement
  list.
\<close>

theorem likelihood_at_landmark:
  "compute_likelihood a (fl a (1 / 5), fl a (1 / 20)) (lx, ly, h) [(0, 0)] [(lx, ly)] = Inr 1
   \<and> compute_likelihood a noise sample measurement [] = Inr 1"
proof
  show "compute_likelihood a (fl a (1 / 5), fl a (1 / 20)) (lx, ly, h) [(0, 0)] [(lx, ly)] = Inr 1"
    using likelihood_den_distance[of a] likelihood_den_angle[of a]
    by (simp add: compute_likelihood_def fsub_def fadd_def arctan2_def np_div_def bind_def
        fsquare_def Let_def) (simp add: fmul_def)
  show "compute_likelihood a noise sample measurement [] = Inr 1"
    by (simp add: compute_likelihood_def)
qed

text \<open>
  Claim C9. \<open>naive_search\<close> returns the smallest index whose element is at least \<open>x\<close>
  only when such an element exists. When \<open>x\<close> is greater than every element, and so when
  the list is empty, the scan leaves the list and raises \<open>IndexError\<close>. Hence, for a
  target count of at least one, \<open>multinomial\<close> and \<open>stratified\<close> raise \<open>IndexError\<close>
  exactly when one of the values they search for exceeds every cumulative weight.
\<close>

theorem naive_search_precondition:
  "((\<exists>i<length Q. x \<le> Q ! i) \<longrightarrow>
      (\<exists>m. naive_search Q x = Inr m \<and> m < length Q \<and> x \<le> Q ! m \<and> (\<forall>j<m. Q ! j < x)))
   \<and> ((\<forall>i<length Q. Q ! i < x) \<longrightarrow> naive_search Q x = Inl IndexError)
   \<and> naive_search [] x = Inl IndexError
   \<and> (1 \<le> N \<longrightarrow>
        (multinomial a r samples N = Inl IndexError) =
        (\<exists>k<nat N. \<forall>i<length samples. cumsum a (map fst samples) ! i < multinomial_draw a r k))
   \<and> (1 \<le> N \<longrightarrow>
        (stratified a r samples N = Inl IndexError) =
        (\<exists>k<nat N. \<forall>i<length samples. cumsum a (map fst samples) ! i < stratified_draw a r N k))"
proof (intro conjI impI)
  assume "\<exists>i<length Q. x \<le> Q ! i"
  then show "\<exists>m. naive_search Q x = Inr m \<and> m < length Q \<and> x \<le> Q ! m \<and> (\<forall>j<m. Q ! j < x)"
    using naive_search_covered[of Q x] by (simp add: covered_def)
next
  assume "\<forall>i<length Q. Q ! i < x"
  then show "naive_search Q x = Inl IndexError"
    by (intro naive_search_not_covered) (auto simp: covered_def not_le)
next
  show "naive_search [] x = Inl IndexError"
    by (intro naive_search_not_covered) (simp add: covered_def)
next
  assume "1 \<le> N"
  then show "(multinomial a r samples N = Inl IndexError) =
        (\<exists>k<nat N. \<forall>i<length samples. cumsum a (map fst samples) ! i < multinomial_draw a r k)"
    by (simp add: multinomial_raises_iff covered_def not_le)
next
  assume "1 \<le> N"
  then show "(stratified a r samples N = Inl IndexError) =
        (\<exists>k<nat N. \<forall>i<length samples. cumsum a (map fst samples) ! i < stratified_draw a r N k)"
    by (simp add: stratified_raises_iff covered_def not_le)
qed

theorem naive_search_precondition_witness:
  "(\<exists>i<length [1 / 2, 1 :: real]. 3 / 4 \<le> [1 / 2, 1 :: real] ! i)
   \<and> naive_search [1 / 2, 1] (3 / 4) = Inr 1
   \<and> [1 / 2, 1 :: real] ! 0 < 2 \<and> [1 / 2, 1 :: real] ! 1 < 2
   \<and> naive_search [1 / 2, 1] 2 = Inl IndexError
   \<and> (1::int) \<le> 1
   \<and> multinomial Exact \<lparr>multivariate_normal = (\<lambda>i mean cov. mean), uniform = (\<lambda>k low high. 2)\<rparr>
        [(1 / 2, (0, 0, 0)), (1 / 2, (0, 0, 0))] 1 = Inl IndexError
   \<and> stratified Exact \<lparr>multivariate_normal = (\<lambda>i mean cov. mean), uniform = (\<lambda>k low high. 2)\<rparr>
        [(1 / 2, (0, 0, 0)), (1 / 2, (0, 0, 0))] 1 = Inl IndexError"
proof -
  let ?Q = "[1 / 2, 1 :: real]"
  let ?r = "\<lparr>multivariate_normal = (\<lambda>i mean cov. mean), uniform = (\<lambda>k low high. 2)\<rparr>"
  let ?s = "[(1 / 2, (0, 0, 0)), (1 / 2, (0, 0, 0))] :: particle list"
  have cov: "\<exists>i<length ?Q. 3 / 4 \<le> ?Q ! i"
    by (intro exI[of _ 1]) simp
  have unc: "\<forall>i<length ?Q. ?Q ! i < 2"
    by (simp add: nth_Cons' )
  from naive_search_precondition[of ?Q "3 / 4" 1 Exact ?r ?s] cov
  obtain m where m: "naive_search ?Q (3 / 4) = Inr m" "m < length ?Q" "3 / 4 \<le> ?Q ! m"
    by blast
  have "m = 1" using m(2,3) by (cases m) auto
  with m have a: "naive_search ?Q (3 / 4) = Inr 1" by simp
  have b: "naive_search ?Q 2 = Inl IndexError"
    using naive_search_precondition[of ?Q 2 1 Exact ?r ?s] unc by blast
  have "\<exists>k<nat 1. \<forall>i<length ?s. cumsum Exact (map fst ?s) ! i < multinomial_draw Exact ?r k"
    by (intro exI[of _ 0]) (simp add: multinomial_draw_def nth_Cons' fadd_def)
  then have c: "multinomial Exact ?r ?s 1 = Inl IndexError"
    using naive_search_precondition[of ?Q 2 1 Exact ?r ?s] by simp
  have "\<exists>k<nat 1. \<forall>i<length ?s. cumsum Exact (map fst ?s) ! i < stratified_draw Exact ?r 1 k"
    by (intro exI[of _ 0]) (simp add: stratified_draw_def nth_Cons' fadd_def fmul_def)
  then have d: "stratified Exact ?r ?s 1 = Inl IndexError"
    using naive_search_precondition[of ?Q 2 1 Exact ?r ?s] by simp
  from cov unc a b c d show ?thesis by simp
qed

text \<open>
  Claim C10, as the code has it. In exact arithmetic the weighted mean of \<open>N \<ge> 1\<close>
  particles that all have weight \<open>1 / N\<close> and the same state \<open>s\<close> is \<open>s\<close>; such is the
  particle set of a filter initialised at a known state.
\<close>

theorem average_of_identical_states:
  "(1 \<le> N \<longrightarrow> get_average_state Exact (replicate (nat N) (1 / of_int N, s)) = s)
   \<and> (1 \<le> n_particles f \<longrightarrow>
        (\<exists>ps. map_sum id particles (particle_initialize_uniform_original_state_known Exact f s) =
                 Inr (Some ps) \<and>
              length ps = nat (n_particles f) \<and> get_average_state Exact ps = s))"
proof (intro conjI impI)
  assume "1 \<le> N"
  then show "get_average_state Exact (replicate (nat N) (1 / of_int N, s)) = s"
    by (rule average_of_identical_states_Exact)
next
  assume h: "1 \<le> n_particles f"
  let ?ps = "replicate (nat (n_particles f)) (1 / of_int (n_particles f), s)"
  have "map_sum id particles (particle_initialize_uniform_original_state_known Exact f s) =
      Inr (Some ?ps)"
    using h by (simp add: initialize_known)
  moreover have "get_average_state Exact ?ps = s"
    using h by (rule average_of_identical_states_Exact)
  ultimately show "\<exists>ps. map_sum id particles (particle_initialize_uniform_original_state_known Exact f s) =
                 Inr (Some ps) \<and>
              length ps = nat (n_particles f) \<and> get_average_state Exact ps = s"
    by (intro exI[of _ ?ps]) simp
qed

theorem average_of_identical_states_witness:
  "(1::int) \<le> 6
   \<and> get_average_state Exact (replicate (nat 6) (1 / of_int 6, (1, 1, 1))) = (1, 1, 1)
   \<and> 1 \<le> n_particles demo_filter
   \<and> (\<exists>ps. map_sum id particles
              (particle_initialize_uniform_original_state_known Exact demo_filter (10, 10, 0)) =
              Inr (Some ps) \<and>
           length ps = 3000 \<and> get_average_state Exact ps = (10, 10, 0))"
proof -
  have n: "n_particles demo_filter = 3000" by (simp add: demo_filter_def)
  from average_of_identical_states[of 6 "(1, 1, 1)" demo_filter]
  have a: "get_average_state Exact (replicate (nat 6) (1 / of_int 6, (1, 1, 1))) = (1, 1, 1)"
    by simp
  from average_of_identical_states[of 6 "(10, 10, 0)" demo_filter] n
  have b: "\<exists>ps. map_sum id particles
              (particle_initialize_uniform_original_state_known Exact demo_filter (10, 10, 0)) =
              Inr (Some ps) \<and>
           length ps = 3000 \<and> get_average_state Exact ps = (10, 10, 0)"
    by simp
  from a b n show ?thesis by simp
qed

text \<open>
  In binary64 the claim fails: a filter of six particles initialised at the state
  \<open>(1, 1, 1)\<close> holds six particles of weight \<open>1.0 / 6\<close>, and their weighted mean is
  \<open>0.9999999999999999\<close> in every component.
\<close>

theorem average_of_six_initialized_rounds:
  "map_sum id particles
     (particle_initialize_uniform_original_state_known Binary64
        (demo_filter\<lparr>n_particles := 6\<rparr>) (1, 1, 1)) =
     Inr (Some (replicate 6 (fl Binary64 (1 / 6), (1, 1, 1))))
   \<and> get_average_state Binary64 (replicate 6 (fl Binary64 (1 / 6), (1, 1, 1))) =
     (9007199254740991 / 9007199254740992, 9007199254740991 / 9007199254740992,
      9007199254740991 / 9007199254740992)
   \<and> get_average_state Binary64 (replicate 6 (fl Binary64 (1 / 6), (1, 1, 1))) \<noteq> (1, 1, 1)"
proof -
  have "get_average_state Binary64 (replicate 6 (fl Binary64 (1 / 6), (1, 1, 1))) =
     (9007199254740991 / 9007199254740992, 9007199254740991 / 9007199254740992,
      9007199254740991 / 9007199254740992)"
    by (simp only: get_average_state_def replicate_6 average_loop.simps prod.case fadd_def
        fmul_def fl.simps b64_sixth b64_sixth_fix b64_avg1 b64_avg2 b64_avg3 b64_avg4 b64_avg5
        b64_avg6)
  moreover have "map_sum id particles
     (particle_initialize_uniform_original_state_known Binary64
        (demo_filter\<lparr>n_particles := 6\<rparr>) (1, 1, 1)) =
     Inr (Some (replicate 6 (fl Binary64 (1 / 6), (1, 1, 1))))"
    by (simp add: initialize_known)
  ultimately show ?thesis by simp
qed

end
